theory Spec2Isabelle
  imports Main "HOL-Library.Extended_Nat" "HOL-Library.AList" "HOL-Library.Word"
begin

section \<open>Common conventions\<close>

text \<open>
  The development embeds three translation units of the repository:
  \<^verbatim>\<open>src/buffer/lru_k_replacer.cpp\<close>, \<^verbatim>\<open>src/buffer/buffer_pool_manager.cpp\<close> and
  \<^verbatim>\<open>src/primer/trie.cpp\<close>. Every member function becomes a function on an explicit
  state record. A run that the C++ program does not survive (a failed \<^verbatim>\<open>BUSTUB_ASSERT\<close>) or
  that the language leaves undefined (reading a variable that was never assigned, indexing
  outside an array, \<^verbatim>\<open>front()\<close> of an empty list) is the \<open>Inl\<close> branch of the result.

  Trailing underscores of member names are dropped (\<^verbatim>\<open>curr_size_\<close> is \<open>curr_size\<close>).
\<close>

datatype error =
    AssertionFailure      \<comment> \<open>\<^verbatim>\<open>BUSTUB_ASSERT\<close> failed: the process aborts\<close>
  | UndefinedBehaviour    \<comment> \<open>the C++ program has no defined meaning from here on\<close>

text \<open>
  \<^verbatim>\<open>static_cast<int>(x)\<close> for a \<^verbatim>\<open>size_t\<close> value \<open>x\<close>: the low 32 bits, read as a signed number.
\<close>

definition static_cast_int :: "nat \<Rightarrow> int" where
  "static_cast_int n = sint (word_of_nat n :: 32 word)"

text \<open>Arithmetic on \<^verbatim>\<open>size_t\<close> is modulo \<open>2 ^ 64\<close>; adding the \<^verbatim>\<open>int\<close> \<open>-1\<close> adds \<open>2 ^ 64 - 1\<close>.\<close>

definition size_t_add :: "nat \<Rightarrow> int \<Rightarrow> nat" where
  "size_t_add c d = (c + nat (d mod 2 ^ 64)) mod 2 ^ 64"

text \<open>
  The value that a 32-bit signed counter holds after an arithmetic operation with the
  mathematical result \<open>x\<close>: the low 32 bits of \<open>x\<close>, read as a signed number. The successor of
  \<open>2 ^ 31 - 1\<close> is \<open>- 2 ^ 31\<close>.
\<close>

definition int32_wrap :: "int \<Rightarrow> int" where
  "int32_wrap x = sint (word_of_int x :: 32 word)"

section \<open>The LRU-K replacer\<close>

subsection \<open>Nodes\<close>

text \<open>
  The class \<^verbatim>\<open>LRUKNode\<close> is declared in \<^verbatim>\<open>lru_k_replacer.h\<close>, which is not among the
  sources. Its fields are the ones \<^verbatim>\<open>lru_k_replacer.cpp\<close> reads: \<^verbatim>\<open>history_\<close>, \<^verbatim>\<open>fid_\<close>,
  \<^verbatim>\<open>is_evictable_\<close>, and the \<open>k\<close> its constructor takes. Timestamps are the values of a
  logical clock and are modelled as natural numbers.
\<close>

record LRUKNode =
  history :: "nat list"
  node_k :: nat
  fid :: int
  is_evictable :: bool

text \<open>
  Modelled from the spec: the constructor \<^verbatim>\<open>LRUKNode(fid, k)\<close> of the missing header. A new
  node has no recorded access and is not evictable (``If the node does not exist, create it
  with evictable=false'').
\<close>

definition LRUKNode_new :: "int \<Rightarrow> nat \<Rightarrow> LRUKNode" where
  "LRUKNode_new frame_id k = \<lparr>history = [], node_k = k, fid = frame_id, is_evictable = False\<rparr>"

text \<open>
  Modelled from the spec: \<^verbatim>\<open>LRUKNode::RecordAccess\<close> of the missing header. The history
  holds at most \<open>K\<close> timestamps, and ``pushing a new timestamp evicts the oldest when full''.
  The list \<^verbatim>\<open>history_\<close> is kept in the order of the accesses, the oldest retained timestamp
  at its front: \<^verbatim>\<open>Evict\<close> reads \<^verbatim>\<open>history_.front()\<close> as the earliest recorded timestamp of
  a node (``break ties by the smaller earliest-recorded timestamp (oldest history front)'').
  A new timestamp is pushed at the back, and the front is popped when the list is full.
\<close>

definition node_RecordAccess :: "LRUKNode \<Rightarrow> nat \<Rightarrow> LRUKNode" where
  "node_RecordAccess node t =
     (if length (history node) < node_k node
      then node\<lparr>history := history node @ [t]\<rparr>
      else node\<lparr>history := tl (history node) @ [t]\<rparr>)"

text \<open>
  Modelled from the spec: \<^verbatim>\<open>LRUKNode::GetKDistance\<close> of the missing header. ``Define
  backward K-distance at current time \<open>t\<close> as \<open>t - history[K-1]\<close> if the node has recorded
  \<open>\<ge> K\<close> accesses, else \<open>+\<infinity>\<close>'', where the history is read newest first
  (``\<open>h[0] > h[1] > \<dots> > h[m-1]\<close>''): \<open>history[K-1]\<close> is the \<open>K\<close>-th most recent access,
  the entry \<open>K - 1\<close> of the stored list read from its back. The C++ value \<^verbatim>\<open>ULONG_MAX\<close>,
  which \<^verbatim>\<open>Evict\<close> tests for, stands for \<open>+\<infinity>\<close>; the model returns an extended natural
  number.
\<close>

definition GetKDistance :: "LRUKNode \<Rightarrow> nat \<Rightarrow> enat" where
  "GetKDistance node t =
     (if node_k node \<le> length (history node)
      then enat (t - rev (history node) ! (node_k node - 1))
      else \<infinity>)"

subsection \<open>Replacer state and operations\<close>

text \<open>
  \<^verbatim>\<open>node_store_\<close> is a hash map from frame id to node. It is modelled as an association
  list with \<^const>\<open>map_of\<close> for \<^verbatim>\<open>find\<close>; the order of the list is the order in which the
  range-for loop of \<^verbatim>\<open>Evict\<close> visits the nodes. That order is unspecified in C++, and no
  theorem below depends on it.
\<close>

record LRUKReplacer =
  node_store :: "(int \<times> LRUKNode) list"
  current_timestamp :: nat
  curr_size :: nat
  replacer_size :: nat
  k :: nat

definition LRUKReplacer_new :: "nat \<Rightarrow> nat \<Rightarrow> LRUKReplacer" where
  "LRUKReplacer_new num_frames kk =
     \<lparr>node_store = [], current_timestamp = 0, curr_size = 0,
      replacer_size = num_frames, k = kk\<rparr>"

text \<open>
  Modelled from the spec: \<^verbatim>\<open>GetCurrentTimeStamp\<close> of the missing header. ``A monotonically
  increasing timestamp counter (logical clock) is maintained by the replacer and incremented
  on every access or eviction attempt.''
\<close>

definition GetCurrentTimeStamp :: "LRUKReplacer \<Rightarrow> nat \<times> LRUKReplacer" where
  "GetCurrentTimeStamp r = (current_timestamp r, r\<lparr>current_timestamp := current_timestamp r + 1\<rparr>)"

text \<open>
  The loop of \<^verbatim>\<open>Evict\<close>. The accumulator is \<open>None\<close> while \<^verbatim>\<open>is_first\<close> holds and
  \<open>Some (*frame_id, val, curr_node)\<close> afterwards.
\<close>

fun Evict_scan ::
  "nat \<Rightarrow> (int \<times> LRUKNode) list \<Rightarrow> (int \<times> enat \<times> LRUKNode) option
     \<Rightarrow> error + (int \<times> enat \<times> LRUKNode) option" where
  "Evict_scan t [] acc = Inr acc"
| "Evict_scan t ((frame_id_node, node) # rest) acc =
     (if \<not> is_evictable node then Evict_scan t rest acc
      else (case acc of
          None \<Rightarrow> Evict_scan t rest (Some (fid node, GetKDistance node t, node))
        | Some (frame_id, val, curr_node) \<Rightarrow>
            (let tmp = GetKDistance node t in
             if tmp > val then Evict_scan t rest (Some (fid node, tmp, node))
             else if tmp = val \<and> val = \<infinity> then
               (case (history node, history curr_node) of
                  (a # _, b # _) \<Rightarrow>
                    if a < b then Evict_scan t rest (Some (fid node, tmp, node))
                    else Evict_scan t rest acc
                | _ \<Rightarrow> Inl UndefinedBehaviour)
             else Evict_scan t rest acc)))"

definition Evict :: "LRUKReplacer \<Rightarrow> error + (int option \<times> LRUKReplacer)" where
  "Evict r0 =
     (let (t, r) = GetCurrentTimeStamp r0 in
        if curr_size r = 0 then Inr (None, r)
        else (case Evict_scan t (node_store r) None of
            Inl e \<Rightarrow> Inl e
          | Inr None \<Rightarrow> Inl UndefinedBehaviour
          | Inr (Some (frame_id, val, curr_node)) \<Rightarrow>
              Inr (Some frame_id,
                   r\<lparr>node_store := AList.delete frame_id (node_store r),
                     curr_size := size_t_add (curr_size r) (- 1)\<rparr>)))"

definition RecordAccess :: "LRUKReplacer \<Rightarrow> int \<Rightarrow> error + LRUKReplacer" where
  "RecordAccess r0 frame_id =
     (if \<not> (0 \<le> frame_id \<and> frame_id \<le> static_cast_int (replacer_size r0))
      then Inl AssertionFailure
      else let (t, r) = GetCurrentTimeStamp r0 in
        (case map_of (node_store r) frame_id of
           None \<Rightarrow>
             Inr (r\<lparr>node_store :=
                      node_store r @ [(frame_id, node_RecordAccess (LRUKNode_new frame_id (k r)) t)]\<rparr>)
         | Some node \<Rightarrow>
             Inr (r\<lparr>node_store :=
                      AList.update frame_id (node_RecordAccess node t) (node_store r)\<rparr>)))"

definition SetEvictable :: "LRUKReplacer \<Rightarrow> int \<Rightarrow> bool \<Rightarrow> LRUKReplacer" where
  "SetEvictable r frame_id set_evictable =
     (case map_of (node_store r) frame_id of
        None \<Rightarrow> r
      | Some node \<Rightarrow>
          if is_evictable node \<noteq> set_evictable
          then r\<lparr>node_store :=
                   AList.update frame_id (node\<lparr>is_evictable := set_evictable\<rparr>) (node_store r),
                 curr_size := size_t_add (curr_size r) (if set_evictable then 1 else - 1)\<rparr>
          else r)"

definition Remove :: "LRUKReplacer \<Rightarrow> int \<Rightarrow> LRUKReplacer" where
  "Remove r frame_id =
     (case map_of (node_store r) frame_id of
        None \<Rightarrow> r
      | Some node \<Rightarrow>
          r\<lparr>curr_size := size_t_add (curr_size r) (if is_evictable node then - 1 else 0),
            node_store := AList.delete frame_id (node_store r)\<rparr>)"

definition Size :: "LRUKReplacer \<Rightarrow> nat" where
  "Size r = curr_size r"


section \<open>The buffer pool manager\<close>

subsection \<open>Pages and the disk store\<close>

type_synonym page_id_t = int
type_synonym frame_id_t = int
type_synonym byte = "8 word"

text \<open>
  Modelled from the spec: the constants of the missing \<^verbatim>\<open>common/config.h\<close>. The sentinel
  \<^verbatim>\<open>INVALID_PAGE_ID\<close> is \<open>-1\<close>, the page size ``conventionally 4096 bytes''.
\<close>

definition INVALID_PAGE_ID :: page_id_t where
  "INVALID_PAGE_ID = - 1"

definition BUSTUB_PAGE_SIZE :: nat where
  "BUSTUB_PAGE_SIZE = 4096"

text \<open>
  A frame (\<^verbatim>\<open>class Page\<close> of the missing \<^verbatim>\<open>page.h\<close>) with the members the manager uses. The
  reader-writer latch is not modelled. \<^verbatim>\<open>pin_count_\<close> is a C++ \<^verbatim>\<open>int\<close>; the model uses an
  unbounded integer, so it describes runs with fewer than \<open>2 ^ 31\<close> outstanding pins on a frame.
\<close>

record Page =
  data :: "byte list"
  page_id :: page_id_t
  pin_count :: int
  is_dirty :: bool

text \<open>Modelled from the spec: a frame before its first use, and \<^verbatim>\<open>Page::ResetMemory\<close> (zero bytes).\<close>

definition zero_page :: "byte list" where
  "zero_page = replicate BUSTUB_PAGE_SIZE 0"

definition Page_new :: Page where
  "Page_new = \<lparr>data = zero_page, page_id = INVALID_PAGE_ID, pin_count = 0, is_dirty = False\<rparr>"

definition ResetMemory :: "Page \<Rightarrow> Page" where
  "ResetMemory pg = pg\<lparr>data := zero_page\<rparr>"

text \<open>
  Modelled from the spec: the disk store, an external collaborator. \<^verbatim>\<open>read_page\<close> of an id
  that was never written returns an all-zero page. The store also keeps the sequence of
  \<^verbatim>\<open>write_page\<close> calls it has seen, so that a theorem can speak about what was written.
\<close>

record DiskManager =
  disk_pages :: "page_id_t \<Rightarrow> byte list"
  write_log :: "(page_id_t \<times> byte list) list"

definition DiskManager_new :: DiskManager where
  "DiskManager_new = \<lparr>disk_pages = (\<lambda>_. zero_page), write_log = []\<rparr>"

definition WritePage :: "DiskManager \<Rightarrow> page_id_t \<Rightarrow> byte list \<Rightarrow> DiskManager" where
  "WritePage d p bytes =
     d\<lparr>disk_pages := (disk_pages d)(p := bytes), write_log := write_log d @ [(p, bytes)]\<rparr>"

definition ReadPage :: "DiskManager \<Rightarrow> page_id_t \<Rightarrow> byte list" where
  "ReadPage d p = disk_pages d p"

subsection \<open>Manager state\<close>

text \<open>
  \<^verbatim>\<open>page_table_\<close> is a hash map that is never iterated: a partial function. \<^verbatim>\<open>free_list_\<close>
  is a \<^verbatim>\<open>std::list\<close>. \<^verbatim>\<open>next_page_id_\<close> is an atomic counter of the 32-bit signed type
  \<^verbatim>\<open>page_id_t\<close> (\<^verbatim>\<open>FlushPage\<close> casts it to \<^verbatim>\<open>int\<close>); its increment wraps around.
\<close>

record BufferPoolManager =
  pool_size :: nat
  pages :: "Page list"
  replacer :: LRUKReplacer
  page_table :: "page_id_t \<rightharpoonup> frame_id_t"
  free_list :: "frame_id_t list"
  next_page_id :: page_id_t
  disk_manager :: DiskManager

definition BufferPoolManager_new :: "nat \<Rightarrow> DiskManager \<Rightarrow> nat \<Rightarrow> BufferPoolManager" where
  "BufferPoolManager_new ps d replacer_k =
     \<lparr>pool_size = ps,
      pages = replicate ps Page_new,
      replacer = LRUKReplacer_new ps replacer_k,
      page_table = Map.empty,
      free_list = map static_cast_int [0..<ps],
      next_page_id = 0,
      disk_manager = d\<rparr>"

text \<open>\<^verbatim>\<open>pages_[frame_id]\<close> is defined only for an index inside the array.\<close>

definition in_pool :: "BufferPoolManager \<Rightarrow> frame_id_t \<Rightarrow> bool" where
  "in_pool s f \<longleftrightarrow> 0 \<le> f \<and> nat f < length (pages s)"

definition frame_at :: "BufferPoolManager \<Rightarrow> frame_id_t \<Rightarrow> Page" where
  "frame_at s f = pages s ! nat f"

definition set_frame :: "BufferPoolManager \<Rightarrow> frame_id_t \<Rightarrow> Page \<Rightarrow> BufferPoolManager" where
  "set_frame s f pg = s\<lparr>pages := (pages s)[nat f := pg]\<rparr>"

subsection \<open>Private helpers\<close>

definition GetAvailableFrameId ::
  "BufferPoolManager \<Rightarrow> error + (frame_id_t option \<times> BufferPoolManager)" where
  "GetAvailableFrameId s =
     (case free_list s of
        f # rest \<Rightarrow> Inr (Some f, s\<lparr>free_list := rest\<rparr>)
      | [] \<Rightarrow>
          (case Evict (replacer s) of
             Inl e \<Rightarrow> Inl e
           | Inr (victim, r) \<Rightarrow> Inr (victim, s\<lparr>replacer := r\<rparr>)))"

text \<open>
  \<^verbatim>\<open>PinPageToFrame(page, frame_id)\<close>. Both callers pass \<^verbatim>\<open>&pages_[frame_id]\<close> for \<^verbatim>\<open>page\<close>,
  and both have dereferenced it before the call.
\<close>

definition PinPageToFrame :: "BufferPoolManager \<Rightarrow> frame_id_t \<Rightarrow> error + BufferPoolManager" where
  "PinPageToFrame s frame_id =
     (let pg = frame_at s frame_id;
          s1 = s\<lparr>page_table := (page_table s)(page_id pg \<mapsto> frame_id)\<rparr>;
          s2 = set_frame s1 frame_id (pg\<lparr>pin_count := pin_count pg + 1\<rparr>)
      in case RecordAccess (replacer s2) frame_id of
           Inl e \<Rightarrow> Inl e
         | Inr r \<Rightarrow> Inr (s2\<lparr>replacer := SetEvictable r frame_id False\<rparr>))"

text \<open>
  \<^verbatim>\<open>AllocatePage\<close> is \<^verbatim>\<open>return next_page_id_++\<close>: the old value is returned, and the
  counter moves on by one, from \<open>2 ^ 31 - 1\<close> to \<open>- 2 ^ 31\<close>.
\<close>

definition AllocatePage :: "BufferPoolManager \<Rightarrow> page_id_t \<times> BufferPoolManager" where
  "AllocatePage s = (next_page_id s, s\<lparr>next_page_id := int32_wrap (next_page_id s + 1)\<rparr>)"

definition NewPageHelper ::
  "BufferPoolManager \<Rightarrow> frame_id_t
     \<Rightarrow> error + ((page_id_t \<times> frame_id_t) option \<times> BufferPoolManager)" where
  "NewPageHelper s0 frame_id =
     (let (pid, s) = AllocatePage s0;
          pg = ResetMemory (frame_at s frame_id);
          s1 = set_frame s frame_id (pg\<lparr>page_id := pid, pin_count := 0, is_dirty := False\<rparr>)
      in case PinPageToFrame s1 frame_id of
           Inl e \<Rightarrow> Inl e
         | Inr s2 \<Rightarrow> Inr (Some (pid, frame_id), s2))"

definition GetPage :: "BufferPoolManager \<Rightarrow> page_id_t \<Rightarrow> error + frame_id_t option" where
  "GetPage s pid =
     (case page_table s pid of
        None \<Rightarrow> Inr None
      | Some f \<Rightarrow> if in_pool s f then Inr (Some f) else Inl UndefinedBehaviour)"

text \<open>
  The part that \<^verbatim>\<open>NewPage\<close> and \<^verbatim>\<open>DoFetchPage\<close> share word for word: write the victim back
  if it is dirty, then erase its entry of the page table.
\<close>

definition write_back_and_unmap :: "BufferPoolManager \<Rightarrow> frame_id_t \<Rightarrow> BufferPoolManager" where
  "write_back_and_unmap s frame_id =
     (let pg = frame_at s frame_id;
          s1 = (if is_dirty pg
                then s\<lparr>disk_manager := WritePage (disk_manager s) (page_id pg) (data pg)\<rparr>
                else s)
      in s1\<lparr>page_table := (page_table s1)(page_id pg := None)\<rparr>)"

subsection \<open>Public operations\<close>

text \<open>
  A returned \<^verbatim>\<open>Page *\<close> is the index of the frame it points to; \<^verbatim>\<open>nullptr\<close> is \<open>None\<close>.
  \<^verbatim>\<open>NewPage\<close> also returns the page id it stores through its out-parameter.
\<close>

definition NewPage ::
  "BufferPoolManager \<Rightarrow> error + ((page_id_t \<times> frame_id_t) option \<times> BufferPoolManager)" where
  "NewPage s0 =
     (case GetAvailableFrameId s0 of
        Inl e \<Rightarrow> Inl e
      | Inr (None, s) \<Rightarrow> Inr (None, s)
      | Inr (Some frame_id, s) \<Rightarrow>
          if \<not> in_pool s frame_id then Inl UndefinedBehaviour
          else NewPageHelper (write_back_and_unmap s frame_id) frame_id)"

definition DoFetchPage ::
  "BufferPoolManager \<Rightarrow> page_id_t \<Rightarrow> error + (frame_id_t option \<times> BufferPoolManager)" where
  "DoFetchPage s0 pid =
     (if pid = INVALID_PAGE_ID then Inr (None, s0)
      else case page_table s0 pid of
        Some f \<Rightarrow>
          if \<not> in_pool s0 f then Inl UndefinedBehaviour
          else
            (case PinPageToFrame (set_frame s0 f ((frame_at s0 f)\<lparr>is_dirty := True\<rparr>)) f of
               Inl e \<Rightarrow> Inl e
             | Inr s \<Rightarrow> Inr (Some f, s))
      | None \<Rightarrow>
          (case GetAvailableFrameId s0 of
             Inl e \<Rightarrow> Inl e
           | Inr (None, s) \<Rightarrow> Inr (None, s)
           | Inr (Some frame_id, s) \<Rightarrow>
               if \<not> in_pool s frame_id then Inl UndefinedBehaviour
               else
                 (let s1 = write_back_and_unmap s frame_id;
                      pg = frame_at s1 frame_id;
                      s2 = set_frame s1 frame_id
                             (pg\<lparr>data := ReadPage (disk_manager s1) pid, page_id := pid,
                                 pin_count := 0, is_dirty := False\<rparr>)
                  in case PinPageToFrame s2 frame_id of
                       Inl e \<Rightarrow> Inl e
                     | Inr s3 \<Rightarrow> Inr (Some frame_id, s3))))"

definition FetchPage ::
  "BufferPoolManager \<Rightarrow> page_id_t \<Rightarrow> error + (frame_id_t option \<times> BufferPoolManager)" where
  "FetchPage s pid = DoFetchPage s pid"

definition UnpinPage ::
  "BufferPoolManager \<Rightarrow> page_id_t \<Rightarrow> bool \<Rightarrow> error + (bool \<times> BufferPoolManager)" where
  "UnpinPage s0 pid dirty =
     (case GetPage s0 pid of
        Inl e \<Rightarrow> Inl e
      | Inr None \<Rightarrow> Inr (False, s0)
      | Inr (Some f) \<Rightarrow>
          (let s = set_frame s0 f ((frame_at s0 f)\<lparr>is_dirty := dirty\<rparr>) in
           if pin_count (frame_at s f) \<le> 0 then Inr (False, s)
           else
             (let s1 = set_frame s f ((frame_at s f)\<lparr>pin_count := pin_count (frame_at s f) - 1\<rparr>) in
              if pin_count (frame_at s1 f) = 0
              then Inr (True, s1\<lparr>replacer := SetEvictable (replacer s1) f True\<rparr>)
              else Inr (True, s1))))"

definition FlushPage ::
  "BufferPoolManager \<Rightarrow> page_id_t \<Rightarrow> error + (bool \<times> BufferPoolManager)" where
  "FlushPage s pid =
     (if pid = INVALID_PAGE_ID \<or> pid \<ge> next_page_id s then Inr (False, s)
      else case GetPage s pid of
        Inl e \<Rightarrow> Inl e
      | Inr None \<Rightarrow> Inr (False, s)
      | Inr (Some f) \<Rightarrow>
          (let s1 = s\<lparr>disk_manager := WritePage (disk_manager s) pid (data (frame_at s f))\<rparr>
           in Inr (True, set_frame s1 f ((frame_at s1 f)\<lparr>is_dirty := False\<rparr>))))"

fun FlushAllPages_loop :: "nat list \<Rightarrow> BufferPoolManager \<Rightarrow> error + BufferPoolManager" where
  "FlushAllPages_loop [] s = Inr s"
| "FlushAllPages_loop (frame_id # rest) s =
     (if \<not> frame_id < length (pages s) then Inl UndefinedBehaviour
      else
        (let pid = page_id (pages s ! frame_id) in
         if pid \<noteq> INVALID_PAGE_ID \<and> is_dirty (pages s ! frame_id)
         then (case FlushPage s pid of
                 Inl e \<Rightarrow> Inl e
               | Inr (_, s1) \<Rightarrow> FlushAllPages_loop rest s1)
         else FlushAllPages_loop rest s))"

definition FlushAllPages :: "BufferPoolManager \<Rightarrow> error + BufferPoolManager" where
  "FlushAllPages s = FlushAllPages_loop [0..<pool_size s] s"

definition DeletePage ::
  "BufferPoolManager \<Rightarrow> page_id_t \<Rightarrow> error + (bool \<times> BufferPoolManager)" where
  "DeletePage s pid =
     (case page_table s pid of
        None \<Rightarrow> Inr (True, s)
      | Some frame_id \<Rightarrow>
          if \<not> in_pool s frame_id then Inl UndefinedBehaviour
          else if pin_count (frame_at s frame_id) > 0 then Inr (False, s)
          else
            (let s1 = s\<lparr>page_table := (page_table s)(pid := None)\<rparr>;
                 s2 = s1\<lparr>free_list := free_list s1 @ [frame_id]\<rparr>;
                 s3 = set_frame s2 frame_id (ResetMemory (frame_at s2 frame_id))
             in Inr (True,
                  set_frame s3 frame_id
                    ((frame_at s3 frame_id)\<lparr>pin_count := 0, page_id := INVALID_PAGE_ID,
                                            is_dirty := False\<rparr>))))"

subsection \<open>Clients\<close>

text \<open>
  A client that holds a pinned \<^verbatim>\<open>Page *\<close> writes to the frame's bytes through
  \<^verbatim>\<open>GetData()\<close>; \<open>WriteData s f bytes\<close> is the state after the frame's buffer has been
  given the contents \<open>bytes\<close>.
\<close>

definition WriteData :: "BufferPoolManager \<Rightarrow> frame_id_t \<Rightarrow> byte list \<Rightarrow> error + BufferPoolManager" where
  "WriteData s f bytes =
     (if in_pool s f then Inr (set_frame s f ((frame_at s f)\<lparr>data := bytes\<rparr>))
      else Inl UndefinedBehaviour)"

text \<open>
  Modelled from the spec: dropping a page guard (\<^verbatim>\<open>page_guard.cpp\<close> is not among the
  sources). ``On drop, the guard releases its latch (if any) and calls
  \<^verbatim>\<open>unpin_page(page_id, is_dirty_observed)\<close>.''
\<close>

definition GuardDrop ::
  "BufferPoolManager \<Rightarrow> page_id_t \<Rightarrow> bool \<Rightarrow> error + BufferPoolManager" where
  "GuardDrop s pid dirty = (case UnpinPage s pid dirty of Inl e \<Rightarrow> Inl e | Inr (_, s1) \<Rightarrow> Inr s1)"

text \<open>The calls a client can make, and the run of a sequence of them.\<close>

datatype bpm_op =
    OpNewPage
  | OpFetchPage page_id_t
  | OpUnpinPage page_id_t bool
  | OpFlushPage page_id_t
  | OpFlushAllPages
  | OpDeletePage page_id_t
  | OpGuardDrop page_id_t bool
  | OpWriteData frame_id_t "byte list"

fun bpm_step :: "BufferPoolManager \<Rightarrow> bpm_op \<Rightarrow> error + BufferPoolManager" where
  "bpm_step s OpNewPage = (case NewPage s of Inl e \<Rightarrow> Inl e | Inr (_, s1) \<Rightarrow> Inr s1)"
| "bpm_step s (OpFetchPage p) = (case FetchPage s p of Inl e \<Rightarrow> Inl e | Inr (_, s1) \<Rightarrow> Inr s1)"
| "bpm_step s (OpUnpinPage p d) = (case UnpinPage s p d of Inl e \<Rightarrow> Inl e | Inr (_, s1) \<Rightarrow> Inr s1)"
| "bpm_step s (OpFlushPage p) = (case FlushPage s p of Inl e \<Rightarrow> Inl e | Inr (_, s1) \<Rightarrow> Inr s1)"
| "bpm_step s OpFlushAllPages = FlushAllPages s"
| "bpm_step s (OpDeletePage p) = (case DeletePage s p of Inl e \<Rightarrow> Inl e | Inr (_, s1) \<Rightarrow> Inr s1)"
| "bpm_step s (OpGuardDrop p d) = GuardDrop s p d"
| "bpm_step s (OpWriteData f bytes) = WriteData s f bytes"

fun bpm_run :: "BufferPoolManager \<Rightarrow> bpm_op list \<Rightarrow> error + BufferPoolManager" where
  "bpm_run s [] = Inr s"
| "bpm_run s (op # ops) = (case bpm_step s op of Inl e \<Rightarrow> Inl e | Inr s1 \<Rightarrow> bpm_run s1 ops)"

text \<open>
  The states a client can bring a manager into. Frame ids are 32-bit signed integers, so a
  pool has fewer than \<open>2 ^ 31\<close> frames.
\<close>

inductive reachable :: "BufferPoolManager \<Rightarrow> bool" where
  reachable_init: "ps < 2 ^ 31 \<Longrightarrow> reachable (BufferPoolManager_new ps d replacer_k)"
| reachable_step: "reachable s \<Longrightarrow> bpm_step s op = Inr s1 \<Longrightarrow> reachable s1"

section \<open>The copy-on-write trie\<close>

text \<open>
  \<^verbatim>\<open>trie.cpp\<close> builds tries out of reference-counted nodes that are shared between the
  versions of a trie. To state that an operation leaves the old version alone, the nodes
  live in an explicit store: a \<^verbatim>\<open>shared_ptr\<close> is an index into the list of all nodes
  allocated so far (\<open>None\<close> for \<^verbatim>\<open>nullptr\<close>) and \<^verbatim>\<open>make_shared\<close> appends a node.

  The classes \<^verbatim>\<open>TrieNode\<close> and \<^verbatim>\<open>TrieNodeWithValue<T>\<close> are declared in the missing
  \<^verbatim>\<open>trie.h\<close>. A node has the map \<^verbatim>\<open>children_\<close>; a \<^verbatim>\<open>TrieNodeWithValue<T>\<close>
  also has a value of type \<open>T\<close>, and its flag \<^verbatim>\<open>is_value_node_\<close> is set. The model keeps the
  value together with a tag \<open>'t\<close> for its C++ type, so that the \<^verbatim>\<open>dynamic_cast\<close> of
  \<^verbatim>\<open>Get\<close> can be decided; \<open>'v\<close> is the union of the value types in use.
\<close>

record ('t, 'v) TrieNode =
  children :: "(char \<times> nat) list"
  node_value :: "('t \<times> 'v) option"

type_synonym ('t, 'v) store = "('t, 'v) TrieNode list"

definition is_value_node :: "('t, 'v) TrieNode \<Rightarrow> bool" where
  "is_value_node n \<longleftrightarrow> node_value n \<noteq> None"

definition make_shared :: "('t, 'v) store \<Rightarrow> ('t, 'v) TrieNode \<Rightarrow> nat \<times> ('t, 'v) store" where
  "make_shared h n = (length h, h @ [n])"

text \<open>
  The pair \<^verbatim>\<open>(key, index)\<close> of the helper functions is the part of the key that is still
  to be read: \<^verbatim>\<open>index == key.size()\<close> is the empty list, \<^verbatim>\<open>key[index]\<close> the head.
\<close>

fun Search :: "('t, 'v) store \<Rightarrow> nat \<Rightarrow> string \<Rightarrow> nat option" where
  "Search h node [] = (if is_value_node (h ! node) then Some node else None)"
| "Search h node (c # key) =
     (case map_of (children (h ! node)) c of
        None \<Rightarrow> None
      | Some next_node \<Rightarrow> Search h next_node key)"

text \<open>\<^verbatim>\<open>old_node->Clone()\<close> copies the node, with its value if it has one.\<close>

definition CopyCreateNewNode ::
  "('t, 'v) store \<Rightarrow> nat option \<Rightarrow> bool \<Rightarrow> 't \<times> 'v \<Rightarrow> nat \<times> ('t, 'v) store" where
  "CopyCreateNewNode h old_node has_value val =
     (case old_node of
        None \<Rightarrow>
          if has_value then make_shared h \<lparr>children = [], node_value = Some val\<rparr>
          else make_shared h \<lparr>children = [], node_value = None\<rparr>
      | Some a \<Rightarrow>
          if has_value then make_shared h \<lparr>children = children (h ! a), node_value = Some val\<rparr>
          else make_shared h (h ! a))"

fun Insert ::
  "('t, 'v) store \<Rightarrow> nat option \<Rightarrow> string \<Rightarrow> 't \<times> 'v \<Rightarrow> nat \<times> ('t, 'v) store" where
  "Insert h node [] val = CopyCreateNewNode h node True val"
| "Insert h node (c # key) val =
     (let (child, h1) =
            Insert h (case node of None \<Rightarrow> None | Some a \<Rightarrow> map_of (children (h ! a)) c) key val;
          (new_node, h2) = CopyCreateNewNode h1 node False val
      in (new_node,
          h2[new_node := (h2 ! new_node)\<lparr>children := AList.update c child (children (h2 ! new_node))\<rparr>]))"

fun RemoveRecursive ::
  "('t, 'v) store \<Rightarrow> nat option \<Rightarrow> string \<Rightarrow> nat option \<times> ('t, 'v) store" where
  "RemoveRecursive h None key = (None, h)"
| "RemoveRecursive h (Some a) [] =
     (if children (h ! a) = [] then (None, h)
      else (let (n, h1) = make_shared h \<lparr>children = children (h ! a), node_value = None\<rparr>
            in (Some n, h1)))"
| "RemoveRecursive h (Some a) (c # key) =
     (let (child, h1) = RemoveRecursive h (map_of (children (h ! a)) c) key;
          (new_node, h2) = make_shared h1 (h1 ! a)
      in case child of
           Some ch \<Rightarrow>
             (Some new_node,
              h2[new_node := (h2 ! new_node)\<lparr>children := AList.update c ch (children (h2 ! new_node))\<rparr>])
         | None \<Rightarrow>
             (Some new_node,
              h2[new_node := (h2 ! new_node)\<lparr>children := AList.delete c (children (h2 ! new_node))\<rparr>]))"

record Trie =
  root :: "nat option"

text \<open>
  \<open>Get h t ty key\<close> is \<^verbatim>\<open>t.Get<T>(key)\<close> in store \<open>h\<close>, where \<open>ty\<close> is the tag of \<open>T\<close>; the
  result is the value the returned pointer points to, \<open>None\<close> for \<^verbatim>\<open>nullptr\<close>.
\<close>

definition Get :: "('t, 'v) store \<Rightarrow> Trie \<Rightarrow> 't \<Rightarrow> string \<Rightarrow> 'v option" where
  "Get h t ty key =
     (case root t of
        None \<Rightarrow> None
      | Some r \<Rightarrow>
          (case Search h r key of
             None \<Rightarrow> None
           | Some node \<Rightarrow>
               if \<not> is_value_node (h ! node) then None
               else (case node_value (h ! node) of
                       None \<Rightarrow> None
                     | Some (ty', v) \<Rightarrow> if ty' = ty then Some v else None)))"

definition Put ::
  "('t, 'v) store \<Rightarrow> Trie \<Rightarrow> string \<Rightarrow> 't \<Rightarrow> 'v \<Rightarrow> Trie \<times> ('t, 'v) store" where
  "Put h t key ty v = (let (node, h1) = Insert h (root t) key (ty, v) in (\<lparr>root = Some node\<rparr>, h1))"

definition Remove_trie :: "('t, 'v) store \<Rightarrow> Trie \<Rightarrow> string \<Rightarrow> Trie \<times> ('t, 'v) store" where
  "Remove_trie h t key = (let (node, h1) = RemoveRecursive h (root t) key in (\<lparr>root = node\<rparr>, h1))"

text \<open>
  A store is closed when every child pointer points to an allocated node, and a trie lives in
  a store when its root does. Reference counting guarantees both in the C++ program.
\<close>

definition closed_store :: "('t, 'v) store \<Rightarrow> bool" where
  "closed_store h \<longleftrightarrow> (\<forall>a < length h. \<forall>c b. map_of (children (h ! a)) c = Some b \<longrightarrow> b < length h)"

definition trie_in :: "('t, 'v) store \<Rightarrow> Trie \<Rightarrow> bool" where
  "trie_in h t \<longleftrightarrow> (case root t of None \<Rightarrow> True | Some r \<Rightarrow> r < length h)"

text \<open>
  The store and the trie that \<^verbatim>\<open>Trie().Put("a", 7)\<close> produces, with the value type tagged 0.
\<close>

definition one_key_store :: "(nat, nat) store" where
  "one_key_store =
     [\<lparr>children = [], node_value = Some (0, 7)\<rparr>,
      \<lparr>children = [(CHR ''a'', 0)], node_value = None\<rparr>]"

definition one_key_trie :: Trie where
  "one_key_trie = \<lparr>root = Some 1\<rparr>"

section \<open>Invariants and auxiliary notions\<close>

subsection \<open>Replacer invariant\<close>

text \<open>
  \<open>no_better t c n\<close>: at time \<open>t\<close>, node \<open>n\<close> is not a better victim than \<open>c\<close> in the
  order \<^verbatim>\<open>Evict\<close> uses. Its backward K-distance is not larger, and when both distances are
  \<open>+\<infinity>\<close> the front of its history is not smaller.
\<close>

definition no_better :: "nat \<Rightarrow> LRUKNode \<Rightarrow> LRUKNode \<Rightarrow> bool" where
  "no_better t c n \<longleftrightarrow>
     GetKDistance n t \<le> GetKDistance c t \<and>
     (GetKDistance n t = \<infinity> \<and> GetKDistance c t = \<infinity> \<longrightarrow> hd (history c) \<le> hd (history n))"

definition count_evictable :: "(int \<times> LRUKNode) list \<Rightarrow> nat" where
  "count_evictable ns = length (filter (\<lambda>(f, n). is_evictable n) ns)"

text \<open>
  The invariant of the replacer: keys are unique, every node is stored under its own frame
  id, has at least one recorded access and a frame id that is a non-negative \<^verbatim>\<open>int\<close>, and
  \<^verbatim>\<open>curr_size_\<close> is the number of evictable nodes.
\<close>

definition replacer_inv :: "LRUKReplacer \<Rightarrow> bool" where
  "replacer_inv r \<longleftrightarrow>
     distinct (map fst (node_store r)) \<and>
     (\<forall>f n. map_of (node_store r) f = Some n \<longrightarrow>
        fid n = f \<and> history n \<noteq> [] \<and> 0 \<le> f \<and> f < 2 ^ 31) \<and>
     curr_size r = count_evictable (node_store r)"

definition candidates :: "(int \<times> LRUKNode) list \<Rightarrow> LRUKNode set" where
  "candidates ns = {n. \<exists>f. (f, n) \<in> set ns \<and> is_evictable n}"

definition best_of :: "nat \<Rightarrow> LRUKNode set \<Rightarrow> (int \<times> enat \<times> LRUKNode) option \<Rightarrow> bool" where
  "best_of t S res \<longleftrightarrow>
     (case res of
        None \<Rightarrow> S = {}
      | Some (f, v, c) \<Rightarrow>
          c \<in> S \<and> f = fid c \<and> v = GetKDistance c t \<and> history c \<noteq> [] \<and>
          (\<forall>n \<in> S. no_better t c n))"

text \<open>The calls a client of the replacer can make, and the run of a sequence of them.\<close>

datatype replacer_op =
    OpRecordAccess int
  | OpSetEvictable int bool
  | OpRemove int
  | OpEvict

fun replacer_step :: "LRUKReplacer \<Rightarrow> replacer_op \<Rightarrow> error + LRUKReplacer" where
  "replacer_step r (OpRecordAccess f) = RecordAccess r f"
| "replacer_step r (OpSetEvictable f b) = Inr (SetEvictable r f b)"
| "replacer_step r (OpRemove f) = Inr (Remove r f)"
| "replacer_step r OpEvict = (case Evict r of Inl e \<Rightarrow> Inl e | Inr (_, r1) \<Rightarrow> Inr r1)"

fun replacer_run :: "LRUKReplacer \<Rightarrow> replacer_op list \<Rightarrow> error + LRUKReplacer" where
  "replacer_run r [] = Inr r"
| "replacer_run r (op # ops) =
     (case replacer_step r op of Inl e \<Rightarrow> Inl e | Inr r1 \<Rightarrow> replacer_run r1 ops)"

text \<open>
  \<open>histories_ordered\<close>: the history of every node is in the order of the accesses, and the
  clock is ahead of every recorded timestamp. The front of a history is then the smallest
  timestamp in it, the earliest recorded access of the node.
\<close>

definition histories_ordered :: "LRUKReplacer \<Rightarrow> bool" where
  "histories_ordered r \<longleftrightarrow>
     (\<forall>f n. map_of (node_store r) f = Some n \<longrightarrow>
        sorted (history n) \<and> (\<forall>x \<in> set (history n). x < current_timestamp r))"

text \<open>
  Two frames of a replacer with \<open>K = 3\<close>, each accessed twice: frame 0 at times 0 and 3,
  frame 1 at times 1 and 2. Both are evictable and both have backward K-distance \<open>+\<infinity>\<close>.
\<close>

definition two_ties :: LRUKReplacer where
  "two_ties =
     \<lparr>node_store =
        [(0, \<lparr>history = [0, 3], node_k = 3, fid = 0, is_evictable = True\<rparr>),
         (1, \<lparr>history = [1, 2], node_k = 3, fid = 1, is_evictable = True\<rparr>)],
      current_timestamp = 4, curr_size = 2, replacer_size = 2, k = 3\<rparr>"

subsection \<open>Concrete manager states\<close>

text \<open>
  A pool of one frame after \<^verbatim>\<open>NewPage\<close> (page 0 in frame 0, pinned once), and the same
  pool after \<^verbatim>\<open>UnpinPage(0, true)\<close> (page 0 unpinned, dirty, evictable).
\<close>

definition one_pinned :: BufferPoolManager where
  "one_pinned =
     \<lparr>pool_size = 1,
      pages = [\<lparr>data = zero_page, page_id = 0, pin_count = 1, is_dirty = False\<rparr>],
      replacer =
        \<lparr>node_store = [(0, \<lparr>history = [0], node_k = 2, fid = 0, is_evictable = False\<rparr>)],
         current_timestamp = 1, curr_size = 0, replacer_size = 1, k = 2\<rparr>,
      page_table = [0 \<mapsto> 0],
      free_list = [],
      next_page_id = 1,
      disk_manager = DiskManager_new\<rparr>"

definition one_unpinned_dirty :: BufferPoolManager where
  "one_unpinned_dirty =
     \<lparr>pool_size = 1,
      pages = [\<lparr>data = zero_page, page_id = 0, pin_count = 0, is_dirty = True\<rparr>],
      replacer =
        \<lparr>node_store = [(0, \<lparr>history = [0], node_k = 2, fid = 0, is_evictable = True\<rparr>)],
         current_timestamp = 1, curr_size = 1, replacer_size = 1, k = 2\<rparr>,
      page_table = [0 \<mapsto> 0],
      free_list = [],
      next_page_id = 1,
      disk_manager = DiskManager_new\<rparr>"

text \<open>
  The pool of one frame after \<^verbatim>\<open>NewPage\<close>, \<^verbatim>\<open>UnpinPage(0, true)\<close> and \<^verbatim>\<open>DeletePage(0)\<close>:
  frame 0 is back on the free list, and its node is still in the replacer, evictable.
\<close>

definition one_deleted :: BufferPoolManager where
  "one_deleted =
     \<lparr>pool_size = 1,
      pages = [\<lparr>data = zero_page, page_id = INVALID_PAGE_ID, pin_count = 0, is_dirty = False\<rparr>],
      replacer =
        \<lparr>node_store = [(0, \<lparr>history = [0], node_k = 2, fid = 0, is_evictable = True\<rparr>)],
         current_timestamp = 1, curr_size = 1, replacer_size = 1, k = 2\<rparr>,
      page_table = Map.empty,
      free_list = [0],
      next_page_id = 1,
      disk_manager = DiskManager_new\<rparr>"

subsection \<open>Manager invariant\<close>

text \<open>
  \<open>bpm_wf\<close>: the bookkeeping of the manager is consistent. The pool has fewer than
  \<open>2 ^ 31\<close> frames and the replacer was made for the same number; the replacer satisfies its
  invariant and knows only frames of the pool; the free list has no duplicates, and a free
  frame is a frame of the pool with pin count 0 that the page table does not mention; the page
  table maps a page id to a frame of the pool that holds that page; pin counts are not
  negative.
\<close>

definition bpm_wf :: "BufferPoolManager \<Rightarrow> bool" where
  "bpm_wf s \<longleftrightarrow>
     pool_size s < 2 ^ 31 \<and>
     length (pages s) = pool_size s \<and>
     replacer_size (replacer s) = pool_size s \<and>
     replacer_inv (replacer s) \<and>
     distinct (free_list s) \<and>
     (\<forall>f \<in> set (free_list s).
        in_pool s f \<and> pin_count (frame_at s f) = 0 \<and> (\<forall>p. page_table s p \<noteq> Some f)) \<and>
     (\<forall>p f. page_table s p = Some f \<longrightarrow> in_pool s f \<and> page_id (frame_at s f) = p) \<and>
     (\<forall>f n. map_of (node_store (replacer s)) f = Some n \<longrightarrow> in_pool s f) \<and>
     (\<forall>f. in_pool s f \<longrightarrow> 0 \<le> pin_count (frame_at s f))"

text \<open>
  \<open>frames_tracked s F\<close>: every frame of the pool that is neither free nor in \<open>F\<close> has a
  node in the replacer, and the node is evictable exactly when the frame's pin count is 0.
\<close>

definition frames_tracked :: "BufferPoolManager \<Rightarrow> frame_id_t set \<Rightarrow> bool" where
  "frames_tracked s F \<longleftrightarrow>
     (\<forall>f. in_pool s f \<and> f \<notin> set (free_list s) \<and> f \<notin> F \<longrightarrow>
        (\<exists>n. map_of (node_store (replacer s)) f = Some n \<and>
             (is_evictable n \<longleftrightarrow> pin_count (frame_at s f) = 0)))"

definition bpm_inv :: "BufferPoolManager \<Rightarrow> bool" where
  "bpm_inv s \<longleftrightarrow> bpm_wf s \<and> frames_tracked s {}"

text \<open>
  The state in the middle of an operation that is about to pin frame \<open>f\<close>: the invariant
  holds for all frames but \<open>f\<close>, which has left the free list.
\<close>

definition bpm_inv_except :: "BufferPoolManager \<Rightarrow> frame_id_t \<Rightarrow> bool" where
  "bpm_inv_except s f \<longleftrightarrow>
     bpm_wf s \<and> frames_tracked s {f} \<and> in_pool s f \<and> f \<notin> set (free_list s)"

subsection \<open>Runs with their return values, and the round trip of a page\<close>

datatype bpm_result =
    RNewPage "(page_id_t \<times> frame_id_t) option"
  | RFetchPage "frame_id_t option"
  | RBool bool
  | RUnit

fun bpm_call :: "BufferPoolManager \<Rightarrow> bpm_op \<Rightarrow> error + (bpm_result \<times> BufferPoolManager)" where
  "bpm_call s OpNewPage = (case NewPage s of Inl e \<Rightarrow> Inl e | Inr (r, s1) \<Rightarrow> Inr (RNewPage r, s1))"
| "bpm_call s (OpFetchPage p) =
     (case FetchPage s p of Inl e \<Rightarrow> Inl e | Inr (r, s1) \<Rightarrow> Inr (RFetchPage r, s1))"
| "bpm_call s (OpUnpinPage p d) =
     (case UnpinPage s p d of Inl e \<Rightarrow> Inl e | Inr (r, s1) \<Rightarrow> Inr (RBool r, s1))"
| "bpm_call s (OpFlushPage p) =
     (case FlushPage s p of Inl e \<Rightarrow> Inl e | Inr (r, s1) \<Rightarrow> Inr (RBool r, s1))"
| "bpm_call s OpFlushAllPages =
     (case FlushAllPages s of Inl e \<Rightarrow> Inl e | Inr s1 \<Rightarrow> Inr (RUnit, s1))"
| "bpm_call s (OpDeletePage p) =
     (case DeletePage s p of Inl e \<Rightarrow> Inl e | Inr (r, s1) \<Rightarrow> Inr (RBool r, s1))"
| "bpm_call s (OpGuardDrop p d) =
     (case GuardDrop s p d of Inl e \<Rightarrow> Inl e | Inr s1 \<Rightarrow> Inr (RUnit, s1))"
| "bpm_call s (OpWriteData f bytes) =
     (case WriteData s f bytes of Inl e \<Rightarrow> Inl e | Inr s1 \<Rightarrow> Inr (RUnit, s1))"

fun bpm_trace ::
  "BufferPoolManager \<Rightarrow> bpm_op list \<Rightarrow> error + (bpm_result list \<times> BufferPoolManager)" where
  "bpm_trace s [] = Inr ([], s)"
| "bpm_trace s (op # ops) =
     (case bpm_call s op of
        Inl e \<Rightarrow> Inl e
      | Inr (r, s1) \<Rightarrow>
          (case bpm_trace s1 ops of Inl e \<Rightarrow> Inl e | Inr (rs, s2) \<Rightarrow> Inr (r # rs, s2)))"

text \<open>
  The calls of the round trip of a page: \<^verbatim>\<open>NewPage\<close>, \<^verbatim>\<open>FetchPage\<close> and \<^verbatim>\<open>UnpinPage\<close>.
  \<open>round_trip_op p\<close> are the same calls except \<^verbatim>\<open>UnpinPage(p, false)\<close>.
\<close>

fun pool_op :: "bpm_op \<Rightarrow> bool" where
  "pool_op OpNewPage = True"
| "pool_op (OpFetchPage q) = True"
| "pool_op (OpUnpinPage q d) = True"
| "pool_op _ = False"

fun round_trip_op :: "page_id_t \<Rightarrow> bpm_op \<Rightarrow> bool" where
  "round_trip_op p OpNewPage = True"
| "round_trip_op p (OpFetchPage q) = True"
| "round_trip_op p (OpUnpinPage q d) = (q \<noteq> p \<or> d)"
| "round_trip_op p _ = False"

definition count_NewPage :: "bpm_op list \<Rightarrow> nat" where
  "count_NewPage ops = length (filter (\<lambda>op. op = OpNewPage) ops)"

text \<open>
  \<open>not_allocated p n c\<close>: none of the next \<open>n\<close> calls of \<^verbatim>\<open>AllocatePage\<close> returns the
  page id \<open>p\<close> when the counter \<^verbatim>\<open>next_page_id_\<close> is \<open>c\<close>.
\<close>

fun not_allocated :: "page_id_t \<Rightarrow> nat \<Rightarrow> page_id_t \<Rightarrow> bool" where
  "not_allocated p 0 c = True"
| "not_allocated p (Suc n) c = (c \<noteq> p \<and> not_allocated p n (int32_wrap (c + 1)))"

text \<open>
  \<open>holds_page p B s\<close>: the bytes \<open>B\<close> of page \<open>p\<close> are safe in state \<open>s\<close>. The only frame
  that can hold page \<open>p\<close> is the one the page table names; if the page is resident, its frame
  has the bytes \<open>B\<close> and is dirty unless the disk has them too; if it is not resident, the disk
  has them.
\<close>

definition holds_page :: "page_id_t \<Rightarrow> byte list \<Rightarrow> BufferPoolManager \<Rightarrow> bool" where
  "holds_page p B s \<longleftrightarrow>
     (\<forall>g. in_pool s g \<and> page_id (frame_at s g) = p \<longrightarrow> page_table s p = Some g) \<and>
     (case page_table s p of
        Some g \<Rightarrow>
          data (frame_at s g) = B \<and> (is_dirty (frame_at s g) \<or> disk_pages (disk_manager s) p = B)
      | None \<Rightarrow> disk_pages (disk_manager s) p = B)"

text \<open>
  \<open>page_held p B s\<close>: the bytes \<open>B\<close> of page \<open>p\<close> are in the frame of the page if it is
  resident, and on disk if it is not; no frame but the one the page table names holds the
  page. Nothing is said about the dirty flag.
\<close>

definition page_held :: "page_id_t \<Rightarrow> byte list \<Rightarrow> BufferPoolManager \<Rightarrow> bool" where
  "page_held p B s \<longleftrightarrow>
     (\<forall>g. in_pool s g \<and> page_id (frame_at s g) = p \<longrightarrow> page_table s p = Some g) \<and>
     (case page_table s p of
        Some g \<Rightarrow> data (frame_at s g) = B
      | None \<Rightarrow> disk_pages (disk_manager s) p = B)"

text \<open>
  \<open>safe_run p B s ops\<close>: in the run of the calls \<open>ops\<close> from state \<open>s\<close>, no call fails, no
  \<^verbatim>\<open>NewPage\<close> yields the page id \<open>p\<close>, and whenever a call evicts the frame of page \<open>p\<close>
  (the page is resident before the call and not after it), the frame is dirty or the disk
  has the bytes \<open>B\<close> already.
\<close>

fun safe_run :: "page_id_t \<Rightarrow> byte list \<Rightarrow> BufferPoolManager \<Rightarrow> bpm_op list \<Rightarrow> bool" where
  "safe_run p B s [] = True"
| "safe_run p B s (op # ops) =
     (case bpm_call s op of
        Inl e \<Rightarrow> False
      | Inr (res, s1) \<Rightarrow>
          (case res of RNewPage (Some (q, f)) \<Rightarrow> q \<noteq> p | _ \<Rightarrow> True) \<and>
          (case page_table s p of
             Some g \<Rightarrow>
               page_table s1 p = None \<longrightarrow>
                 is_dirty (frame_at s g) \<or> disk_pages (disk_manager s) p = B
           | None \<Rightarrow> True) \<and>
          safe_run p B s1 ops)"

text \<open>
  The pool of one frame at the end of the run \<^verbatim>\<open>NewPage\<close> (page 0), write, \<^verbatim>\<open>UnpinPage(0, true)\<close>,
  \<^verbatim>\<open>FetchPage(0)\<close>, \<^verbatim>\<open>UnpinPage(0, false)\<close>, \<^verbatim>\<open>NewPage\<close> (page 1), \<^verbatim>\<open>UnpinPage(1, false)\<close>,
  \<^verbatim>\<open>FetchPage(0)\<close>: page 0 is back in frame 0, read from a disk that was never written.
\<close>

definition lost_update_final :: BufferPoolManager where
  "lost_update_final =
     \<lparr>pool_size = 1,
      pages = [\<lparr>data = zero_page, page_id = 0, pin_count = 1, is_dirty = False\<rparr>],
      replacer =
        \<lparr>node_store = [(0, \<lparr>history = [5], node_k = 2, fid = 0, is_evictable = False\<rparr>)],
         current_timestamp = 6, curr_size = 0, replacer_size = 1, k = 2\<rparr>,
      page_table = [0 \<mapsto> 0],
      free_list = [],
      next_page_id = 2,
      disk_manager = DiskManager_new\<rparr>"

section \<open>Properties of the LRU-K replacer\<close>

subsection \<open>Choosing a victim\<close>

lemma no_better_refl: "no_better t c c"
  by (simp add: no_better_def)

lemma no_better_step_gt:
  "no_better t c m \<Longrightarrow> GetKDistance c t < GetKDistance n t \<Longrightarrow> no_better t n m"
  by (auto simp: no_better_def)

lemma no_better_step_tie:
  "no_better t c m \<Longrightarrow> GetKDistance n t = GetKDistance c t \<Longrightarrow> GetKDistance c t = \<infinity> \<Longrightarrow>
   hd (history n) < hd (history c) \<Longrightarrow> no_better t n m"
  by (auto simp: no_better_def)

lemma candidates_Cons:
  "candidates ((key, node) # ns) = (if is_evictable node then insert node (candidates ns) else candidates ns)"
  by (auto simp: candidates_def)

lemma Evict_scan_best:
  assumes "\<forall>(f, n) \<in> set ns. history n \<noteq> []" and "best_of t S acc"
  shows "\<exists>res. Evict_scan t ns acc = Inr res \<and> best_of t (S \<union> candidates ns) res"
  using assms
proof (induction ns arbitrary: acc S)
  case Nil
  then show ?case by (simp add: candidates_def)
next
  case (Cons x ns)
  obtain key node where x: "x = (key, node)" by (cases x)
  have hist: "\<forall>(f, n) \<in> set ns. history n \<noteq> []" and hn: "history node \<noteq> []"
    using Cons.prems(1) x by auto
  show ?case
  proof (cases "is_evictable node")
    case False
    with Cons.IH[OF hist Cons.prems(2)] x show ?thesis by (simp add: candidates_Cons)
  next
    case True
    have "\<exists>acc'. Evict_scan t (x # ns) acc = Evict_scan t ns acc' \<and> best_of t (insert node S) acc'"
    proof (cases acc)
      case None
      with Cons.prems(2) have "S = {}" by (simp add: best_of_def)
      then have "best_of t (insert node S) (Some (fid node, GetKDistance node t, node))"
        using hn by (simp add: best_of_def no_better_refl)
      then show ?thesis using None True x by auto
    next
      case (Some trip)
      obtain f v c where trip: "trip = (f, v, c)" by (cases trip)
      from Cons.prems(2) Some trip have c: "c \<in> S" "f = fid c" "v = GetKDistance c t"
        "history c \<noteq> []" "\<forall>n \<in> S. no_better t c n"
        by (auto simp: best_of_def)
      obtain a as where ha: "history node = a # as" using hn by (cases "history node") auto
      obtain b bs where hb: "history c = b # bs" using c(4) by (cases "history c") auto
      let ?new = "Some (fid node, GetKDistance node t, node)"
      consider (gt) "GetKDistance node t > v"
        | (tie) "\<not> GetKDistance node t > v" "GetKDistance node t = v" "v = \<infinity>" "a < b"
        | (keep1) "\<not> GetKDistance node t > v" "GetKDistance node t = v" "v = \<infinity>" "\<not> a < b"
        | (keep2) "\<not> GetKDistance node t > v" "\<not> (GetKDistance node t = v \<and> v = \<infinity>)"
        by blast
      then show ?thesis
      proof cases
        case gt
        then have "best_of t (insert node S) ?new"
          using c hn by (auto simp: best_of_def no_better_refl intro: no_better_step_gt)
        moreover have "Evict_scan t (x # ns) acc = Evict_scan t ns ?new"
          using gt Some trip True x by simp
        ultimately show ?thesis by blast
      next
        case tie
        then have "best_of t (insert node S) ?new"
          using c hn ha hb by (auto simp: best_of_def no_better_refl intro: no_better_step_tie)
        moreover have "Evict_scan t (x # ns) acc = Evict_scan t ns ?new"
          using tie Some trip True x ha hb by simp
        ultimately show ?thesis by blast
      next
        case keep1
        then have "no_better t c node" using c ha hb by (simp add: no_better_def)
        then have "best_of t (insert node S) acc"
          using c Some trip by (auto simp: best_of_def)
        moreover have "Evict_scan t (x # ns) acc = Evict_scan t ns acc"
          using keep1 Some trip True x ha hb by simp
        ultimately show ?thesis by blast
      next
        case keep2
        then have "no_better t c node" using c by (auto simp: no_better_def)
        then have "best_of t (insert node S) acc"
          using c Some trip by (auto simp: best_of_def)
        moreover have "Evict_scan t (x # ns) acc = Evict_scan t ns acc"
          using keep2 Some trip True x by auto
        ultimately show ?thesis by blast
      qed
    qed
    then obtain acc' where a: "Evict_scan t (x # ns) acc = Evict_scan t ns acc'"
      and b: "best_of t (insert node S) acc'" by blast
    from Cons.IH[OF hist b] a True x show ?thesis by (simp add: candidates_Cons)
  qed
qed

subsection \<open>Machine arithmetic\<close>

lemma static_cast_int_eq: "static_cast_int n = (int n + 2 ^ 31) mod 2 ^ 32 - 2 ^ 31"
proof -
  have "(word_of_nat n :: 32 word) = word_of_int (int n)" by simp
  then show ?thesis unfolding static_cast_int_def by (simp only: int_word_sint) simp
qed

lemma static_cast_int_less: "static_cast_int n < 2 ^ 31"
  using sint_lt[of "word_of_nat n :: 32 word"] by (simp add: static_cast_int_def)

lemma static_cast_int_id: "n < 2 ^ 31 \<Longrightarrow> static_cast_int n = int n"
  unfolding static_cast_int_eq by simp

lemma int32_wrap_eq: "int32_wrap x = (x + 2 ^ 31) mod 2 ^ 32 - 2 ^ 31"
  unfolding int32_wrap_def by (simp only: int_word_sint) simp

lemma int32_wrap_range: "- (2 ^ 31) \<le> int32_wrap x \<and> int32_wrap x < 2 ^ 31"
  using sint_ge[of "word_of_int x :: 32 word"] sint_lt[of "word_of_int x :: 32 word"]
  by (simp add: int32_wrap_def)

lemma int32_wrap_id: "- (2 ^ 31) \<le> x \<Longrightarrow> x < 2 ^ 31 \<Longrightarrow> int32_wrap x = x"
  unfolding int32_wrap_eq by simp

lemma int32_wrap_max: "int32_wrap 2147483648 = - 2147483648"
  unfolding int32_wrap_eq by simp

lemma int32_wrap_add: "int32_wrap (int32_wrap x + y) = int32_wrap (x + y)"
  by (simp add: int32_wrap_def)

lemma size_t_add_inc: "c + 1 < 2 ^ 64 \<Longrightarrow> size_t_add c 1 = c + 1"
  by (simp add: size_t_add_def)

lemma size_t_add_dec: "0 < c \<Longrightarrow> c < 2 ^ 64 \<Longrightarrow> size_t_add c (- 1) = c - 1"
proof -
  assume a: "0 < c" "c < 2 ^ 64"
  have "c + 18446744073709551615 = (c - 1) + 18446744073709551616" using a by simp
  then have "(c + 18446744073709551615) mod 18446744073709551616 = (c - 1) mod 18446744073709551616"
    by (metis mod_add_self2)
  then show ?thesis using a by (simp add: size_t_add_def)
qed

lemma size_t_add_zero: "c < 2 ^ 64 \<Longrightarrow> size_t_add c 0 = c"
  by (simp add: size_t_add_def)

subsection \<open>Counting evictable nodes\<close>

lemma length_bounded_keys:
  assumes "distinct (map fst ns)" and "\<forall>f \<in> fst ` set ns. 0 \<le> f \<and> f < (2 ^ 31 :: int)"
  shows "length ns \<le> 2 ^ 31"
proof -
  have "length ns = card (set (map fst ns))"
    using assms(1) by (metis distinct_card length_map)
  also have "\<dots> \<le> card {0 ..< (2 ^ 31 :: int)}"
    using assms(2) by (intro card_mono) auto
  also have "\<dots> = 2 ^ 31" by simp
  finally show ?thesis .
qed

lemma count_evictable_le: "count_evictable ns \<le> length ns"
  by (simp add: count_evictable_def)

lemma replacer_inv_count_bound:
  assumes "replacer_inv r" shows "curr_size r \<le> 2 ^ 31"
proof -
  have "\<forall>f \<in> fst ` set (node_store r). 0 \<le> f \<and> f < (2 ^ 31 :: int)"
  proof
    fix f assume "f \<in> fst ` set (node_store r)"
    then obtain n where "map_of (node_store r) f = Some n"
      using assms by (auto simp: replacer_inv_def)
    then show "0 \<le> f \<and> f < 2 ^ 31" using assms by (auto simp: replacer_inv_def)
  qed
  then have "length (node_store r) \<le> 2 ^ 31"
    using assms length_bounded_keys by (auto simp: replacer_inv_def)
  then show ?thesis using assms count_evictable_le[of "node_store r"]
    by (simp add: replacer_inv_def)
qed

lemma count_evictable_update:
  "distinct (map fst ns) \<Longrightarrow> map_of ns f = Some n \<Longrightarrow>
   count_evictable (AList.update f n' ns) + (if is_evictable n then 1 else 0)
     = count_evictable ns + (if is_evictable n' then 1 else 0)"
  by (induction ns) (auto simp: count_evictable_def image_iff dest: map_of_SomeD)

lemma count_evictable_delete:
  "distinct (map fst ns) \<Longrightarrow> map_of ns f = Some n \<Longrightarrow>
   count_evictable (AList.delete f ns) + (if is_evictable n then 1 else 0) = count_evictable ns"
  by (induction ns) (auto simp: count_evictable_def image_iff dest: map_of_SomeD)

lemma count_evictable_append:
  "count_evictable (ns @ [(f, n)]) = count_evictable ns + (if is_evictable n then 1 else 0)"
  by (simp add: count_evictable_def)

lemma count_evictable_pos:
  "map_of ns f = Some n \<Longrightarrow> is_evictable n \<Longrightarrow> 0 < count_evictable ns"
  by (induction ns) (auto simp: count_evictable_def split: if_splits)

lemma count_evictable_zero_set:
  "count_evictable ns = 0 \<longleftrightarrow> (\<forall>(f, n) \<in> set ns. \<not> is_evictable n)"
  by (auto simp: count_evictable_def filter_empty_conv)

lemma count_evictable_zero_iff:
  "distinct (map fst ns) \<Longrightarrow>
     count_evictable ns = 0 \<longleftrightarrow> (\<forall>f n. map_of ns f = Some n \<longrightarrow> \<not> is_evictable n)"
  by (auto simp: count_evictable_zero_set dest: map_of_SomeD)

subsection \<open>The operations keep the replacer invariant\<close>

lemma replacer_inv_new: "replacer_inv (LRUKReplacer_new n kk)"
  by (simp add: replacer_inv_def LRUKReplacer_new_def count_evictable_def)

lemma node_RecordAccess_simps:
  "history (node_RecordAccess n t) \<noteq> []"
  "last (history (node_RecordAccess n t)) = t"
  "fid (node_RecordAccess n t) = fid n"
  "is_evictable (node_RecordAccess n t) = is_evictable n"
  "node_k (node_RecordAccess n t) = node_k n"
  by (simp_all add: node_RecordAccess_def)

lemma replacer_inv_keys:
  "replacer_inv r \<Longrightarrow> map_of (node_store r) f = Some n \<Longrightarrow>
     fid n = f \<and> history n \<noteq> [] \<and> 0 \<le> f \<and> f < 2 ^ 31"
  by (simp add: replacer_inv_def)

lemma RecordAccess_ok:
  assumes inv: "replacer_inv r" and range: "0 \<le> f" "f \<le> static_cast_int (replacer_size r)"
  shows "\<exists>r' n'. RecordAccess r f = Inr r' \<and> replacer_inv r' \<and>
           map_of (node_store r') = (map_of (node_store r))(f \<mapsto> n') \<and>
           is_evictable n' =
             (case map_of (node_store r) f of None \<Rightarrow> False | Some n \<Rightarrow> is_evictable n) \<and>
           last (history n') = current_timestamp r \<and>
           current_timestamp r' = current_timestamp r + 1 \<and>
           curr_size r' = curr_size r \<and> replacer_size r' = replacer_size r \<and> k r' = k r"
proof (cases "map_of (node_store r) f")
  case None
  let ?n = "node_RecordAccess (LRUKNode_new f (k r)) (current_timestamp r)"
  let ?r = "r\<lparr>current_timestamp := current_timestamp r + 1,
              node_store := node_store r @ [(f, ?n)]\<rparr>"
  have eq: "RecordAccess r f = Inr ?r"
    using None range by (simp add: RecordAccess_def GetCurrentTimeStamp_def)
  have fresh: "f \<notin> fst ` set (node_store r)"
    using None by (simp add: map_of_eq_None_iff)
  have flt: "f < 2 ^ 31" using range(2) static_cast_int_less[of "replacer_size r"] by simp
  have m: "map_of (node_store ?r) = (map_of (node_store r))(f \<mapsto> ?n)"
    using None by (auto simp: fun_eq_iff map_add_def split: option.splits)
  have "replacer_inv ?r"
    unfolding replacer_inv_def
  proof (intro conjI allI impI)
    show "distinct (map fst (node_store ?r))" using inv fresh by (simp add: replacer_inv_def)
    show "curr_size ?r = count_evictable (node_store ?r)"
      using inv by (simp add: replacer_inv_def count_evictable_append node_RecordAccess_simps LRUKNode_new_def)
  next
    fix g n assume "map_of (node_store ?r) g = Some n"
    then have "(g = f \<and> n = ?n) \<or> map_of (node_store r) g = Some n"
      unfolding m by (auto split: if_splits)
    then show "fid n = g" "history n \<noteq> []" "0 \<le> g" "g < 2 ^ 31"
      using replacer_inv_keys[OF inv] range(1) flt
      by (auto simp: node_RecordAccess_simps LRUKNode_new_def)
  qed
  then show ?thesis using eq m None
    by (intro exI[of _ ?r] exI[of _ ?n]) (simp add: node_RecordAccess_simps LRUKNode_new_def)
next
  case (Some node)
  let ?n = "node_RecordAccess node (current_timestamp r)"
  let ?r = "r\<lparr>current_timestamp := current_timestamp r + 1,
              node_store := AList.update f ?n (node_store r)\<rparr>"
  have eq: "RecordAccess r f = Inr ?r"
    using Some range by (simp add: RecordAccess_def GetCurrentTimeStamp_def)
  have m: "map_of (node_store ?r) = (map_of (node_store r))(f \<mapsto> ?n)"
    by (simp add: update_conv')
  have d: "distinct (map fst (node_store r))" using inv by (simp add: replacer_inv_def)
  have "replacer_inv ?r"
    unfolding replacer_inv_def
  proof (intro conjI allI impI)
    show "distinct (map fst (node_store ?r))" using d by (simp add: distinct_update)
    show "curr_size ?r = count_evictable (node_store ?r)"
      using inv count_evictable_update[OF d Some, of ?n]
      by (simp add: replacer_inv_def node_RecordAccess_simps)
  next
    fix g n assume "map_of (node_store ?r) g = Some n"
    then have "(g = f \<and> n = ?n) \<or> map_of (node_store r) g = Some n"
      unfolding m by (auto split: if_splits)
    then show "fid n = g" "history n \<noteq> []" "0 \<le> g" "g < 2 ^ 31"
      using replacer_inv_keys[OF inv] Some
      by (auto simp: node_RecordAccess_simps)
  qed
  then show ?thesis using eq m Some
    by (intro exI[of _ ?r] exI[of _ ?n]) (simp add: node_RecordAccess_simps)
qed

lemma SetEvictable_absent:
  "map_of (node_store r) f = None \<Longrightarrow> SetEvictable r f b = r"
  by (simp add: SetEvictable_def)

lemma SetEvictable_ok:
  assumes inv: "replacer_inv r" and node: "map_of (node_store r) f = Some n"
  shows "replacer_inv (SetEvictable r f b) \<and>
         map_of (node_store (SetEvictable r f b)) = (map_of (node_store r))(f \<mapsto> n\<lparr>is_evictable := b\<rparr>) \<and>
         replacer_size (SetEvictable r f b) = replacer_size r \<and>
         k (SetEvictable r f b) = k r \<and>
         current_timestamp (SetEvictable r f b) = current_timestamp r"
proof (cases "is_evictable n = b")
  case True
  then have "SetEvictable r f b = r" using node by (simp add: SetEvictable_def)
  moreover have "n\<lparr>is_evictable := b\<rparr> = n" using True by simp
  ultimately show ?thesis using inv node by (auto simp: fun_eq_iff)
next
  case False
  let ?n = "n\<lparr>is_evictable := b\<rparr>"
  let ?r = "r\<lparr>node_store := AList.update f ?n (node_store r),
              curr_size := size_t_add (curr_size r) (if b then 1 else - 1)\<rparr>"
  have eq: "SetEvictable r f b = ?r" using node False by (simp add: SetEvictable_def)
  have d: "distinct (map fst (node_store r))" using inv by (simp add: replacer_inv_def)
  have m: "map_of (node_store ?r) = (map_of (node_store r))(f \<mapsto> ?n)"
    by (simp add: update_conv')
  have bound: "curr_size r \<le> 2 ^ 31" by (rule replacer_inv_count_bound[OF inv])
  have cs: "curr_size r = count_evictable (node_store r)" using inv by (simp add: replacer_inv_def)
  have "curr_size ?r = count_evictable (node_store ?r)"
  proof (cases b)
    case True
    then have "count_evictable (node_store ?r) = count_evictable (node_store r) + 1"
      using count_evictable_update[OF d node, of ?n] False by simp
    moreover have "size_t_add (curr_size r) 1 = curr_size r + 1"
      using bound by (intro size_t_add_inc) simp
    ultimately show ?thesis using True cs by simp
  next
    case b: False
    then have ev: "is_evictable n" using False by simp
    then have c: "count_evictable (node_store ?r) + 1 = count_evictable (node_store r)"
      using count_evictable_update[OF d node, of ?n] b by simp
    then have "0 < curr_size r" using cs by simp
    then have "size_t_add (curr_size r) (- 1) = curr_size r - 1"
      using bound by (intro size_t_add_dec) simp_all
    then show ?thesis using b cs c by simp
  qed
  moreover have "distinct (map fst (node_store ?r))" using d by (simp add: distinct_update)
  moreover have "\<And>g m'. map_of (node_store ?r) g = Some m' \<Longrightarrow>
        fid m' = g \<and> history m' \<noteq> [] \<and> 0 \<le> g \<and> g < 2 ^ 31"
  proof -
    fix g m' assume "map_of (node_store ?r) g = Some m'"
    then have "(g = f \<and> m' = ?n) \<or> map_of (node_store r) g = Some m'"
      unfolding m by (auto split: if_splits)
    then show "fid m' = g \<and> history m' \<noteq> [] \<and> 0 \<le> g \<and> g < 2 ^ 31"
      using replacer_inv_keys[OF inv] node by auto
  qed
  ultimately have "replacer_inv ?r" unfolding replacer_inv_def by blast
  then show ?thesis using eq m by simp
qed

lemma SetEvictable_inv: "replacer_inv r \<Longrightarrow> replacer_inv (SetEvictable r f b)"
  by (cases "map_of (node_store r) f") (simp_all add: SetEvictable_absent SetEvictable_ok)

lemma Remove_inv:
  assumes inv: "replacer_inv r"
  shows "replacer_inv (Remove r f)"
proof (cases "map_of (node_store r) f")
  case None
  then show ?thesis using inv by (simp add: Remove_def)
next
  case (Some n)
  let ?r = "r\<lparr>curr_size := size_t_add (curr_size r) (if is_evictable n then - 1 else 0),
              node_store := AList.delete f (node_store r)\<rparr>"
  have eq: "Remove r f = ?r" using Some by (simp add: Remove_def)
  have d: "distinct (map fst (node_store r))" using inv by (simp add: replacer_inv_def)
  have bound: "curr_size r \<le> 2 ^ 31" by (rule replacer_inv_count_bound[OF inv])
  have cs: "curr_size r = count_evictable (node_store r)" using inv by (simp add: replacer_inv_def)
  have c: "count_evictable (AList.delete f (node_store r)) + (if is_evictable n then 1 else 0)
             = count_evictable (node_store r)"
    by (rule count_evictable_delete[OF d Some])
  have "curr_size ?r = count_evictable (node_store ?r)"
  proof (cases "is_evictable n")
    case True
    then have "0 < curr_size r" using c cs by simp
    then have "size_t_add (curr_size r) (- 1) = curr_size r - 1"
      using bound by (intro size_t_add_dec) simp_all
    then show ?thesis using True c cs by simp
  next
    case False
    have "size_t_add (curr_size r) 0 = curr_size r"
      using bound by (intro size_t_add_zero) simp
    then show ?thesis using False c cs by simp
  qed
  moreover have "distinct (map fst (node_store ?r))" using d by (simp add: distinct_delete)
  moreover have "\<And>g m'. map_of (node_store ?r) g = Some m' \<Longrightarrow>
        fid m' = g \<and> history m' \<noteq> [] \<and> 0 \<le> g \<and> g < 2 ^ 31"
    using replacer_inv_keys[OF inv] by (auto simp: delete_conv' split: if_splits)
  ultimately have "replacer_inv ?r" unfolding replacer_inv_def by blast
  then show ?thesis using eq by simp
qed

lemma Evict_ok:
  assumes inv: "replacer_inv r"
  shows "\<exists>res r'. Evict r = Inr (res, r') \<and> replacer_inv r' \<and>
           replacer_size r' = replacer_size r \<and> k r' = k r \<and>
           current_timestamp r' = current_timestamp r + 1 \<and>
           (case res of
              None \<Rightarrow>
                (\<forall>f n. map_of (node_store r) f = Some n \<longrightarrow> \<not> is_evictable n) \<and>
                node_store r' = node_store r \<and> curr_size r' = curr_size r
            | Some f \<Rightarrow>
                (\<exists>c. map_of (node_store r) f = Some c \<and> is_evictable c \<and>
                   (\<forall>g n. map_of (node_store r) g = Some n \<and> is_evictable n \<longrightarrow>
                      no_better (current_timestamp r) c n)) \<and>
                node_store r' = AList.delete f (node_store r) \<and>
                curr_size r' + 1 = curr_size r)"
proof -
  let ?t = "current_timestamp r"
  let ?r1 = "r\<lparr>current_timestamp := ?t + 1\<rparr>"
  have d: "distinct (map fst (node_store r))" using inv by (simp add: replacer_inv_def)
  have cs: "curr_size r = count_evictable (node_store r)" using inv by (simp add: replacer_inv_def)
  have bound: "curr_size r \<le> 2 ^ 31" by (rule replacer_inv_count_bound[OF inv])
  show ?thesis
  proof (cases "curr_size r = 0")
    case True
    then have "Evict r = Inr (None, ?r1)" by (simp add: Evict_def GetCurrentTimeStamp_def)
    moreover have "replacer_inv ?r1" using inv by (simp add: replacer_inv_def)
    moreover have "\<forall>f n. map_of (node_store r) f = Some n \<longrightarrow> \<not> is_evictable n"
      using True cs count_evictable_zero_iff[OF d] by simp
    ultimately show ?thesis by simp
  next
    case False
    have hist: "\<forall>(f, n) \<in> set (node_store r). history n \<noteq> []"
      using replacer_inv_keys[OF inv] d by (auto dest: map_of_is_SomeI)
    have "best_of ?t {} None" by (simp add: best_of_def)
    from Evict_scan_best[OF hist this] obtain res
      where scan: "Evict_scan ?t (node_store r) None = Inr res"
        and best: "best_of ?t (candidates (node_store r)) res" by auto
    have "candidates (node_store r) \<noteq> {}"
      using False cs count_evictable_zero_set[of "node_store r"] by (auto simp: candidates_def)
    then obtain f v c where res: "res = Some (f, v, c)"
      using best by (cases res) (auto simp: best_of_def)
    from best res have c: "c \<in> candidates (node_store r)" "f = fid c"
      "\<forall>n \<in> candidates (node_store r). no_better ?t c n"
      by (auto simp: best_of_def)
    from c(1) obtain g where g: "(g, c) \<in> set (node_store r)" "is_evictable c"
      by (auto simp: candidates_def)
    then have mc: "map_of (node_store r) g = Some c" using d by simp
    then have gf: "g = f" using replacer_inv_keys[OF inv mc] c(2) by simp
    let ?r2 = "?r1\<lparr>node_store := AList.delete f (node_store r),
                  curr_size := size_t_add (curr_size r) (- 1)\<rparr>"
    have eq: "Evict r = Inr (Some f, ?r2)"
      using False scan res by (simp add: Evict_def GetCurrentTimeStamp_def)
    have cnt: "count_evictable (AList.delete f (node_store r)) + 1 = count_evictable (node_store r)"
      using count_evictable_delete[OF d mc[unfolded gf]] g(2) by simp
    have dec: "size_t_add (curr_size r) (- 1) = curr_size r - 1"
      using False bound by (intro size_t_add_dec) simp_all
    have "\<And>g m'. map_of (node_store ?r2) g = Some m' \<Longrightarrow>
        fid m' = g \<and> history m' \<noteq> [] \<and> 0 \<le> g \<and> g < 2 ^ 31"
      using replacer_inv_keys[OF inv] by (auto simp: delete_conv' split: if_splits)
    moreover have "distinct (map fst (node_store ?r2))" using d by (simp add: distinct_delete)
    moreover have "curr_size ?r2 = count_evictable (node_store ?r2)" using dec cnt cs by simp
    ultimately have inv2: "replacer_inv ?r2" unfolding replacer_inv_def by blast
    have better: "\<forall>g n. map_of (node_store r) g = Some n \<and> is_evictable n \<longrightarrow> no_better ?t c n"
      using c(3) by (auto simp: candidates_def dest: map_of_SomeD)
    show ?thesis
      using eq inv2 mc gf g(2) better dec False cs by simp
  qed
qed

lemma replacer_step_inv:
  assumes "replacer_inv r" "replacer_step r op = Inr r'"
  shows "replacer_inv r'"
proof (cases op)
  case (OpRecordAccess f)
  then have ra: "RecordAccess r f = Inr r'" using assms(2) by simp
  then have "0 \<le> f" "f \<le> static_cast_int (replacer_size r)"
    by (auto simp: RecordAccess_def split: if_splits)
  from RecordAccess_ok[OF assms(1) this] ra show ?thesis by auto
next
  case (OpSetEvictable f b)
  then show ?thesis using assms SetEvictable_inv by auto
next
  case (OpRemove f)
  then show ?thesis using assms Remove_inv by auto
next
  case OpEvict
  then show ?thesis using assms(2) Evict_ok[OF assms(1)] by auto
qed

lemma replacer_run_inv:
  "replacer_inv r \<Longrightarrow> replacer_run r ops = Inr r' \<Longrightarrow> replacer_inv r'"
proof (induction ops arbitrary: r)
  case Nil
  then show ?case by simp
next
  case (Cons op ops)
  then show ?case using replacer_step_inv by (auto split: sum.splits)
qed

subsection \<open>Concrete runs of the replacer\<close>

lemma static_cast_int_small [simp]:
  "static_cast_int 0 = 0" "static_cast_int (Suc 0) = 1" "static_cast_int 2 = 2" "static_cast_int 3 = 3"
  by (simp_all add: static_cast_int_eq)

lemma int32_wrap_small [simp]:
  "int32_wrap 0 = 0" "int32_wrap 1 = 1" "int32_wrap 2 = 2" "int32_wrap 3 = 3"
  by (simp_all add: int32_wrap_eq)

lemma size_t_add_small [simp]:
  "size_t_add 0 1 = 1" "size_t_add 1 1 = 2" "size_t_add (Suc 0) 1 = 2" "size_t_add 2 (- 1) = 1"
  "size_t_add 1 (- 1) = 0"  "size_t_add (Suc 0) (- 1) = 0"
  by (simp_all add: size_t_add_def)

lemma two_ties_reachable:
  "replacer_run (LRUKReplacer_new 2 3)
     [OpRecordAccess 0, OpRecordAccess 1, OpRecordAccess 1, OpRecordAccess 0,
      OpSetEvictable 0 True, OpSetEvictable 1 True] = Inr two_ties"
  by (simp add: two_ties_def LRUKReplacer_new_def RecordAccess_def GetCurrentTimeStamp_def
      SetEvictable_def node_RecordAccess_def LRUKNode_new_def)

lemma two_ties_inv: "replacer_inv two_ties"
  by (auto simp: replacer_inv_def two_ties_def count_evictable_def split: if_splits)

subsection \<open>The range check of \<^verbatim>\<open>RecordAccess\<close>\<close>

lemma RecordAccess_abort_iff:
  "(\<exists>e. RecordAccess r f = Inl e) \<longleftrightarrow> f < 0 \<or> static_cast_int (replacer_size r) < f"
  by (auto simp: RecordAccess_def GetCurrentTimeStamp_def split: option.splits)

text \<open>
  C5. \<^verbatim>\<open>RecordAccess\<close> is specified to abort exactly when the frame id is outside
  \<open>[0, num_frames)\<close>. The assertion of the code compares with \<open>\<le>\<close>: a replacer for three
  frames accepts frame id 3, does not abort, and records the access in a new node.
\<close>

theorem RecordAccess_accepts_num_frames:
  "RecordAccess (LRUKReplacer_new 3 2) 3 =
     Inr \<lparr>node_store = [(3, \<lparr>history = [0], node_k = 2, fid = 3, is_evictable = False\<rparr>)],
          current_timestamp = 1, curr_size = 0, replacer_size = 3, k = 2\<rparr>"
  by (simp add: LRUKReplacer_new_def RecordAccess_def GetCurrentTimeStamp_def
      node_RecordAccess_def LRUKNode_new_def)

subsection \<open>The order of the histories\<close>

lemma sorted_hd_Min: "sorted xs \<Longrightarrow> xs \<noteq> [] \<Longrightarrow> hd xs = Min (set xs)"
  by (cases xs) (auto intro!: Min_eqI[symmetric])

lemma node_RecordAccess_ordered:
  assumes "sorted (history n)" and "\<forall>x \<in> set (history n). x < t"
  shows "sorted (history (node_RecordAccess n t)) \<and>
         (\<forall>x \<in> set (history (node_RecordAccess n t)). x < Suc t)"
proof -
  have tl1: "sorted (tl (history n))" using assms(1) by (rule sorted_tl)
  have tl2: "\<forall>x \<in> set (tl (history n)). x < t"
    using assms(2) by (cases "history n") simp_all
  show ?thesis
    using assms tl1 tl2
    by (auto simp: node_RecordAccess_def sorted_append less_Suc_eq dest: less_imp_le)
qed

lemma histories_ordered_new: "histories_ordered (LRUKReplacer_new n kk)"
  by (simp add: histories_ordered_def LRUKReplacer_new_def)

lemma histories_orderedD:
  "histories_ordered r \<Longrightarrow> map_of (node_store r) f = Some n \<Longrightarrow>
     sorted (history n) \<and> (\<forall>x \<in> set (history n). x < current_timestamp r)"
  by (simp add: histories_ordered_def)

lemma RecordAccess_ordered:
  assumes ord: "histories_ordered r" and ra: "RecordAccess r f = Inr r'"
  shows "histories_ordered r'"
proof -
  let ?t = "current_timestamp r"
  have later: "\<And>g m. map_of (node_store r) g = Some m \<Longrightarrow>
      sorted (history m) \<and> (\<forall>x \<in> set (history m). x < Suc ?t)"
    using histories_orderedD[OF ord] by (auto simp: less_Suc_eq)
  show ?thesis
  proof (cases "map_of (node_store r) f")
    case None
    let ?n = "node_RecordAccess (LRUKNode_new f (k r)) ?t"
    have r': "node_store r' = node_store r @ [(f, ?n)]" "current_timestamp r' = Suc ?t"
      using ra None by (auto simp: RecordAccess_def GetCurrentTimeStamp_def split: if_splits)
    have m: "map_of (node_store r') = (map_of (node_store r))(f \<mapsto> ?n)"
      unfolding r' using None by (auto simp: fun_eq_iff map_add_def split: option.splits)
    have new: "sorted (history ?n) \<and> (\<forall>x \<in> set (history ?n). x < Suc ?t)"
      by (rule node_RecordAccess_ordered) (simp_all add: LRUKNode_new_def)
    show ?thesis
      unfolding histories_ordered_def r'(2)
    proof (intro allI impI)
      fix g m assume "map_of (node_store r') g = Some m"
      then have "(g = f \<and> m = ?n) \<or> map_of (node_store r) g = Some m"
        unfolding m by (auto split: if_splits)
      then show "sorted (history m) \<and> (\<forall>x \<in> set (history m). x < Suc ?t)"
        using new later by blast
    qed
  next
    case (Some node)
    let ?n = "node_RecordAccess node ?t"
    have r': "node_store r' = AList.update f ?n (node_store r)" "current_timestamp r' = Suc ?t"
      using ra Some by (auto simp: RecordAccess_def GetCurrentTimeStamp_def split: if_splits)
    have m: "map_of (node_store r') = (map_of (node_store r))(f \<mapsto> ?n)"
      unfolding r' by (simp add: update_conv')
    have new: "sorted (history ?n) \<and> (\<forall>x \<in> set (history ?n). x < Suc ?t)"
      using histories_orderedD[OF ord Some] by (intro node_RecordAccess_ordered) simp_all
    show ?thesis
      unfolding histories_ordered_def r'(2)
    proof (intro allI impI)
      fix g m assume "map_of (node_store r') g = Some m"
      then have "(g = f \<and> m = ?n) \<or> map_of (node_store r) g = Some m"
        unfolding m by (auto split: if_splits)
      then show "sorted (history m) \<and> (\<forall>x \<in> set (history m). x < Suc ?t)"
        using new later by blast
    qed
  qed
qed

lemma SetEvictable_ordered:
  assumes "histories_ordered r"
  shows "histories_ordered (SetEvictable r f b)"
proof (cases "map_of (node_store r) f")
  case None
  then show ?thesis using assms by (simp add: SetEvictable_absent)
next
  case (Some n)
  show ?thesis
    unfolding histories_ordered_def
  proof (intro allI impI)
    fix g m assume a: "map_of (node_store (SetEvictable r f b)) g = Some m"
    have "current_timestamp (SetEvictable r f b) = current_timestamp r"
      using Some by (simp add: SetEvictable_def)
    moreover have "\<exists>m'. map_of (node_store r) g = Some m' \<and> history m' = history m"
      using a Some by (auto simp: SetEvictable_def update_conv' split: if_splits)
    then obtain m' where m': "map_of (node_store r) g = Some m'" "history m' = history m"
      by blast
    ultimately show "sorted (history m) \<and>
        (\<forall>x \<in> set (history m). x < current_timestamp (SetEvictable r f b))"
      using histories_orderedD[OF assms m'(1)] m'(2) by simp
  qed
qed

lemma Remove_ordered:
  assumes "histories_ordered r"
  shows "histories_ordered (Remove r f)"
proof (cases "map_of (node_store r) f")
  case None
  then show ?thesis using assms by (simp add: Remove_def)
next
  case (Some n)
  then show ?thesis
    using histories_orderedD[OF assms]
    by (auto simp: histories_ordered_def Remove_def delete_conv' split: if_splits)
qed

lemma Evict_ordered:
  assumes inv: "replacer_inv r" and ord: "histories_ordered r" and ev: "Evict r = Inr (res, r')"
  shows "histories_ordered r'"
proof -
  from Evict_ok[OF inv] ev have ts: "current_timestamp r' = current_timestamp r + 1"
    and ns: "node_store r' = node_store r \<or> (\<exists>f. node_store r' = AList.delete f (node_store r))"
    by (auto split: option.splits)
  have sub: "\<And>g m. map_of (node_store r') g = Some m \<Longrightarrow> map_of (node_store r) g = Some m"
    using ns by (auto simp: delete_conv' split: if_splits)
  show ?thesis
    unfolding histories_ordered_def ts
  proof (intro allI impI)
    fix g m assume "map_of (node_store r') g = Some m"
    from histories_orderedD[OF ord sub[OF this]]
    show "sorted (history m) \<and> (\<forall>x \<in> set (history m). x < current_timestamp r + 1)"
      by (auto simp: less_Suc_eq)
  qed
qed

lemma replacer_step_ordered:
  assumes "replacer_inv r" "histories_ordered r" "replacer_step r op = Inr r'"
  shows "histories_ordered r'"
proof (cases op)
  case (OpRecordAccess f)
  then show ?thesis using assms RecordAccess_ordered by auto
next
  case (OpSetEvictable f b)
  then show ?thesis using assms SetEvictable_ordered by auto
next
  case (OpRemove f)
  then show ?thesis using assms Remove_ordered by auto
next
  case OpEvict
  then show ?thesis using assms Evict_ordered by (auto split: sum.splits)
qed

text \<open>
  Every state that calls of the replacer's member functions reach from a new replacer
  satisfies both invariants.
\<close>

lemma replacer_run_ordered:
  "replacer_inv r \<Longrightarrow> histories_ordered r \<Longrightarrow> replacer_run r ops = Inr r' \<Longrightarrow>
     replacer_inv r' \<and> histories_ordered r'"
proof (induction ops arbitrary: r)
  case Nil
  then show ?case by simp
next
  case (Cons op ops)
  from Cons.prems(3) obtain r1 where r1: "replacer_step r op = Inr r1" "replacer_run r1 ops = Inr r'"
    by (auto split: sum.splits)
  have "replacer_inv r1" by (rule replacer_step_inv[OF Cons.prems(1) r1(1)])
  moreover have "histories_ordered r1" by (rule replacer_step_ordered[OF Cons.prems(1,2) r1(1)])
  ultimately show ?case using Cons.IH r1(2) by blast
qed

lemma replacer_run_new:
  "replacer_run (LRUKReplacer_new n kk) ops = Inr r \<Longrightarrow> replacer_inv r \<and> histories_ordered r"
  using replacer_run_ordered[OF replacer_inv_new histories_ordered_new] by blast

lemma two_ties_ordered: "histories_ordered two_ties"
  by (auto simp: histories_ordered_def two_ties_def split: if_splits)

subsection \<open>The victim of \<^verbatim>\<open>Evict\<close>\<close>

text \<open>
  C2. Let the replacer satisfy its invariants, as every replacer does that was made by the
  constructor and used through its member functions. \<^verbatim>\<open>Evict\<close> returns no frame exactly
  when no node is evictable. Otherwise it returns the frame of an evictable node whose
  backward K-distance at the current time is largest; among the nodes whose distance is
  \<open>+\<infinity>\<close> the chosen one has the smallest earliest recorded timestamp, the minimum of its
  history. The chosen node is erased and \<^verbatim>\<open>curr_size_\<close> is decremented.
\<close>

theorem Evict_victim:
  assumes "replacer_inv r" and "histories_ordered r"
  shows "((\<exists>r'. Evict r = Inr (None, r')) \<longleftrightarrow>
            (\<forall>f n. map_of (node_store r) f = Some n \<longrightarrow> \<not> is_evictable n)) \<and>
         ((\<exists>f n. map_of (node_store r) f = Some n \<and> is_evictable n) \<longrightarrow>
            (\<exists>f c r'. Evict r = Inr (Some f, r') \<and>
               map_of (node_store r) f = Some c \<and> is_evictable c \<and>
               (\<forall>g n. map_of (node_store r) g = Some n \<and> is_evictable n \<longrightarrow>
                  GetKDistance n (current_timestamp r) \<le> GetKDistance c (current_timestamp r) \<and>
                  (GetKDistance n (current_timestamp r) = \<infinity> \<and>
                   GetKDistance c (current_timestamp r) = \<infinity> \<longrightarrow>
                     Min (set (history c)) \<le> Min (set (history n)))) \<and>
               node_store r' = AList.delete f (node_store r) \<and>
               map_of (node_store r') f = None \<and>
               curr_size r' + 1 = curr_size r))"
proof -
  from Evict_ok[OF assms(1)] obtain res r' where
    ev: "Evict r = Inr (res, r')" and
    post: "case res of
              None \<Rightarrow>
                (\<forall>f n. map_of (node_store r) f = Some n \<longrightarrow> \<not> is_evictable n) \<and>
                node_store r' = node_store r \<and> curr_size r' = curr_size r
            | Some f \<Rightarrow>
                (\<exists>c. map_of (node_store r) f = Some c \<and> is_evictable c \<and>
                   (\<forall>g n. map_of (node_store r) g = Some n \<and> is_evictable n \<longrightarrow>
                      no_better (current_timestamp r) c n)) \<and>
                node_store r' = AList.delete f (node_store r) \<and>
                curr_size r' + 1 = curr_size r"
    by blast
  have front: "\<And>g n. map_of (node_store r) g = Some n \<Longrightarrow> hd (history n) = Min (set (history n))"
    using histories_orderedD[OF assms(2)] replacer_inv_keys[OF assms(1)]
    by (intro sorted_hd_Min) auto
  show ?thesis
  proof (cases res)
    case None
    with ev post show ?thesis by auto
  next
    case (Some f)
    with post obtain c where c: "map_of (node_store r) f = Some c" "is_evictable c"
      "\<forall>g n. map_of (node_store r) g = Some n \<and> is_evictable n \<longrightarrow>
         no_better (current_timestamp r) c n"
      "node_store r' = AList.delete f (node_store r)" "curr_size r' + 1 = curr_size r"
      by auto
    have best: "\<forall>g n. map_of (node_store r) g = Some n \<and> is_evictable n \<longrightarrow>
        GetKDistance n (current_timestamp r) \<le> GetKDistance c (current_timestamp r) \<and>
        (GetKDistance n (current_timestamp r) = \<infinity> \<and>
         GetKDistance c (current_timestamp r) = \<infinity> \<longrightarrow>
           Min (set (history c)) \<le> Min (set (history n)))"
    proof (intro allI impI)
      fix g n assume n: "map_of (node_store r) g = Some n \<and> is_evictable n"
      then have "no_better (current_timestamp r) c n" using c(3) by blast
      then show "GetKDistance n (current_timestamp r) \<le> GetKDistance c (current_timestamp r) \<and>
        (GetKDistance n (current_timestamp r) = \<infinity> \<and>
         GetKDistance c (current_timestamp r) = \<infinity> \<longrightarrow>
           Min (set (history c)) \<le> Min (set (history n)))"
        using front[OF c(1)] front[of g n] n by (simp add: no_better_def)
    qed
    have "map_of (node_store r') f = None" using c(4) by (simp add: delete_conv')
    moreover have "\<not> (\<forall>f n. map_of (node_store r) f = Some n \<longrightarrow> \<not> is_evictable n)"
      using c(1,2) by blast
    moreover have "\<not> (\<exists>r'. Evict r = Inr (None, r'))" using ev Some by simp
    ultimately show ?thesis
      using ev Some c(1,2,4,5) best by blast
  qed
qed

text \<open>
  The replacer \<^const>\<open>two_ties\<close> is reached by six calls from a new one. Both of its nodes
  are evictable with distance \<open>+\<infinity>\<close>; the earliest access of frame 0 (time 0) is older than
  that of frame 1 (time 1), although frame 0 also has the most recent access (time 3).
  \<^verbatim>\<open>Evict\<close> returns frame 0.
\<close>

theorem Evict_victim_witness:
  "replacer_inv two_ties \<and> histories_ordered two_ties \<and>
   (\<exists>f n. map_of (node_store two_ties) f = Some n \<and> is_evictable n) \<and>
   Evict two_ties =
     Inr (Some 0,
          \<lparr>node_store = [(1, \<lparr>history = [1, 2], node_k = 3, fid = 1, is_evictable = True\<rparr>)],
           current_timestamp = 5, curr_size = 1, replacer_size = 2, k = 3\<rparr>) \<and>
   (\<exists>f c r'. Evict two_ties = Inr (Some f, r') \<and>
      map_of (node_store two_ties) f = Some c \<and> is_evictable c \<and>
      (\<forall>g n. map_of (node_store two_ties) g = Some n \<and> is_evictable n \<longrightarrow>
         GetKDistance n (current_timestamp two_ties) \<le> GetKDistance c (current_timestamp two_ties) \<and>
         (GetKDistance n (current_timestamp two_ties) = \<infinity> \<and>
          GetKDistance c (current_timestamp two_ties) = \<infinity> \<longrightarrow>
            Min (set (history c)) \<le> Min (set (history n)))) \<and>
      node_store r' = AList.delete f (node_store two_ties) \<and>
      map_of (node_store r') f = None \<and>
      curr_size r' + 1 = curr_size two_ties)"
proof -
  have h: "replacer_inv two_ties" by (rule two_ties_inv)
  have o: "histories_ordered two_ties" by (rule two_ties_ordered)
  have e: "\<exists>f n. map_of (node_store two_ties) f = Some n \<and> is_evictable n"
    by (rule exI[of _ 0]) (simp add: two_ties_def)
  have v: "Evict two_ties =
     Inr (Some 0,
          \<lparr>node_store = [(1, \<lparr>history = [1, 2], node_k = 3, fid = 1, is_evictable = True\<rparr>)],
           current_timestamp = 5, curr_size = 1, replacer_size = 2, k = 3\<rparr>)"
    by (simp add: two_ties_def Evict_def GetCurrentTimeStamp_def GetKDistance_def)
  show ?thesis using h o e v Evict_victim[OF h o] by blast
qed

section \<open>Properties of the trie\<close>

lemma CopyCreateNewNode_shape:
  "\<exists>n. CopyCreateNewNode h old b val = (length h, h @ [n]) \<and>
       (b \<longrightarrow> node_value n = Some val) \<and>
       children n = (case old of None \<Rightarrow> [] | Some a \<Rightarrow> children (h ! a))"
  by (auto simp: CopyCreateNewNode_def make_shared_def split: option.splits)

lemma Insert_extends:
  "Insert h node key val = (a, h') \<Longrightarrow> \<exists>ext. h' = h @ ext \<and> a < length h' \<and> length h \<le> a"
proof (induction key arbitrary: h node a h')
  case Nil
  then show ?case using CopyCreateNewNode_shape[of h node True val] by auto
next
  case (Cons c key)
  obtain child h1 where ins: "Insert h (case node of None \<Rightarrow> None | Some a \<Rightarrow> map_of (children (h ! a)) c) key val = (child, h1)"
    by force
  from Cons.IH[OF ins] obtain ext where ext: "h1 = h @ ext" "child < length h1" by auto
  obtain n where cc: "CopyCreateNewNode h1 node False val = (length h1, h1 @ [n])"
    using CopyCreateNewNode_shape[of h1 node False val] by auto
  from Cons.prems ins cc have "a = length h1" "\<exists>n'. h' = h1 @ [n']"
    by (auto simp: nth_append)
  then show ?case using ext by auto
qed

lemma Insert_Search:
  "Insert h node key val = (a, h') \<Longrightarrow>
     \<exists>n. Search (h' @ ext) a key = Some n \<and> n < length h' \<and> node_value (h' ! n) = Some val"
proof (induction key arbitrary: h node a h' ext)
  case Nil
  then show ?case using CopyCreateNewNode_shape[of h node True val]
    by (auto simp: nth_append is_value_node_def)
next
  case (Cons c key)
  obtain child h1 where ins: "Insert h (case node of None \<Rightarrow> None | Some a \<Rightarrow> map_of (children (h ! a)) c) key val = (child, h1)"
    by force
  obtain n0 where cc: "CopyCreateNewNode h1 node False val = (length h1, h1 @ [n0])"
    using CopyCreateNewNode_shape[of h1 node False val] by auto
  let ?n' = "n0\<lparr>children := AList.update c child (children n0)\<rparr>"
  from Cons.prems ins cc have a: "a = length h1" and h': "h' = h1 @ [?n']"
    by (auto simp: nth_append)
  from Cons.IH[OF ins, of "[?n'] @ ext"] obtain n where
    n: "Search (h1 @ [?n'] @ ext) child key = Some n" "n < length h1" "node_value (h1 ! n) = Some val"
    by auto
  have "Search (h' @ ext) a (c # key) = Search (h1 @ [?n'] @ ext) child key"
    using a h' by (simp add: nth_append update_conv')
  then show ?case using n h' by (auto simp: nth_append)
qed

text \<open>
  C9. For every trie \<open>t\<close> in every store, every key and every value \<open>v\<close> of a type tagged
  \<open>ty\<close>: \<^verbatim>\<open>t.Put(key, v).Get<T>(key)\<close> is a pointer to a value equal to \<open>v\<close>.
\<close>

theorem Put_Get:
  "Get (snd (Put h t key ty v)) (fst (Put h t key ty v)) ty key = Some v"
proof -
  obtain a h' where ins: "Insert h (root t) key (ty, v) = (a, h')" by force
  from Insert_Search[OF ins, of "[]"] obtain n where
    n: "Search h' a key = Some n" "node_value (h' ! n) = Some (ty, v)" by auto
  show ?thesis using ins n by (simp add: Put_def Get_def is_value_node_def)
qed

lemma RemoveRecursive_extends:
  "RemoveRecursive h node key = (res, h') \<Longrightarrow>
     \<exists>ext. h' = h @ ext \<and> (case res of None \<Rightarrow> True | Some a \<Rightarrow> a < length h')"
proof (induction h node key arbitrary: res h' rule: RemoveRecursive.induct)
  case (1 h key)
  then show ?case by simp
next
  case (2 h a)
  then show ?case by (auto simp: make_shared_def split: if_splits)
next
  case (3 h a c key)
  obtain child h1 where rec: "RemoveRecursive h (map_of (children (h ! a)) c) key = (child, h1)"
    by force
  from "3.IH"[OF rec] obtain ext where ext: "h1 = h @ ext" by auto
  from "3.prems" rec have "res = Some (length h1)" "\<exists>n'. h' = h1 @ [n']"
    by (auto simp: make_shared_def split: option.splits)
  then show ?case using ext by auto
qed

lemma RemoveRecursive_Search:
  "RemoveRecursive h node key = (Some a, h') \<Longrightarrow> Search (h' @ ext) a key = None"
proof (induction h node key arbitrary: a h' ext rule: RemoveRecursive.induct)
  case (1 h key)
  then show ?case by simp
next
  case (2 h a0)
  then show ?case by (auto simp: make_shared_def is_value_node_def nth_append split: if_splits)
next
  case (3 h a0 c key)
  obtain child h1 where rec: "RemoveRecursive h (map_of (children (h ! a0)) c) key = (child, h1)"
    by force
  show ?case
  proof (cases child)
    case None
    let ?n' = "(h1 ! a0)\<lparr>children := AList.delete c (children (h1 ! a0))\<rparr>"
    from "3.prems" rec None have "a = length h1" "h' = h1 @ [?n']"
      by (auto simp: make_shared_def)
    then show ?thesis by (simp add: nth_append delete_conv')
  next
    case (Some ch)
    let ?n' = "(h1 ! a0)\<lparr>children := AList.update c ch (children (h1 ! a0))\<rparr>"
    from "3.prems" rec Some have a: "a = length h1" "h' = h1 @ [?n']"
      by (auto simp: make_shared_def)
    have "Search (h1 @ [?n'] @ ext) ch key = None"
      using "3.IH"[OF rec[unfolded Some]] by simp
    then show ?thesis using a by (simp add: nth_append update_conv')
  qed
qed

lemma Search_bound:
  "closed_store h \<Longrightarrow> a < length h \<Longrightarrow> Search h a key = Some n \<Longrightarrow> n < length h"
proof (induction key arbitrary: a)
  case Nil
  then show ?case by (simp split: if_splits)
next
  case (Cons c key)
  then show ?case by (auto simp: closed_store_def split: option.splits)
qed

lemma Search_append:
  "closed_store h \<Longrightarrow> a < length h \<Longrightarrow> Search (h @ ext) a key = Search h a key"
proof (induction key arbitrary: a)
  case Nil
  then show ?case by (simp add: nth_append)
next
  case (Cons c key)
  then show ?case by (auto simp: closed_store_def nth_append split: option.splits)
qed

lemma Get_append:
  assumes "closed_store h" "trie_in h t"
  shows "Get (h @ ext) t ty key = Get h t ty key"
proof (cases "root t")
  case None
  then show ?thesis by (simp add: Get_def)
next
  case (Some r)
  then have r: "r < length h" using assms(2) by (simp add: trie_in_def)
  have s: "Search (h @ ext) r key = Search h r key" by (rule Search_append[OF assms(1) r])
  show ?thesis
  proof (cases "Search h r key")
    case None
    then show ?thesis using Some s by (simp add: Get_def)
  next
    case (Some n)
    then have "n < length h" using Search_bound[OF assms(1) r] by simp
    then show ?thesis using Some \<open>root t = Some r\<close> s by (simp add: Get_def nth_append)
  qed
qed

text \<open>
  C10. For a trie \<open>t\<close> in a closed store, \<^verbatim>\<open>t.Remove(key).Get<T>(key)\<close> is \<^verbatim>\<open>nullptr\<close> for
  every \<open>T\<close>. \<^verbatim>\<open>Remove\<close> only allocates: the nodes that existed before are unchanged, and
  \<^verbatim>\<open>Get\<close> on \<open>t\<close> itself returns what it returned before, for every key and type.
\<close>

theorem Remove_Get:
  assumes "closed_store h" "trie_in h t"
  shows "Get (snd (Remove_trie h t key)) (fst (Remove_trie h t key)) ty key = None \<and>
         take (length h) (snd (Remove_trie h t key)) = h \<and>
         (\<forall>ty' key'. Get (snd (Remove_trie h t key)) t ty' key' = Get h t ty' key')"
proof -
  obtain res h' where rem: "RemoveRecursive h (root t) key = (res, h')" by force
  from RemoveRecursive_extends[OF rem] obtain ext where ext: "h' = h @ ext" by auto
  have 1: "Get h' \<lparr>root = res\<rparr> ty key = None"
  proof (cases res)
    case None
    then show ?thesis by (simp add: Get_def)
  next
    case (Some a)
    then show ?thesis using RemoveRecursive_Search[OF rem[unfolded Some], of "[]"]
      by (simp add: Get_def)
  qed
  have 2: "\<forall>ty' key'. Get h' t ty' key' = Get h t ty' key'"
    unfolding ext using Get_append[OF assms] by blast
  show ?thesis using rem 1 2 ext by (simp add: Remove_trie_def)
qed


lemma closed_store_snoc:
  assumes "closed_store h" and "\<And>c b. map_of (children n) c = Some b \<Longrightarrow> b \<le> length h"
  shows "closed_store (h @ [n])"
  unfolding closed_store_def
proof (intro allI impI)
  fix a c b
  assume a: "a < length (h @ [n])" and m: "map_of (children ((h @ [n]) ! a)) c = Some b"
  show "b < length (h @ [n])"
  proof (cases "a < length h")
    case True
    then have "b < length h" using assms(1) m by (auto simp: closed_store_def nth_append)
    then show ?thesis by simp
  next
    case False
    then have "(h @ [n]) ! a = n" using a by (simp add: nth_append less_Suc_eq)
    then show ?thesis using assms(2)[of c b] m by (simp add: less_Suc_eq_le)
  qed
qed

lemma closed_store_children:
  "closed_store h \<Longrightarrow> a < length h \<Longrightarrow> map_of (children (h ! a)) c = Some b \<Longrightarrow> b < length h"
  by (auto simp: closed_store_def)

lemma Insert_closed:
  assumes "closed_store h" and "case node of None \<Rightarrow> True | Some a \<Rightarrow> a < length h"
    and "Insert h node key val = (a', h')"
  shows "closed_store h'"
  using assms
proof (induction key arbitrary: h node a' h')
  case Nil
  obtain n where cc: "CopyCreateNewNode h node True val = (length h, h @ [n])"
    and ch: "children n = (case node of None \<Rightarrow> [] | Some a \<Rightarrow> children (h ! a))"
    using CopyCreateNewNode_shape[of h node True val] by auto
  have "\<And>c b. map_of (children n) c = Some b \<Longrightarrow> b \<le> length h"
    using ch Nil.prems(1,2) closed_store_children[of h]
    by (cases node) (auto simp: less_imp_le)
  then show ?case using Nil.prems cc closed_store_snoc by auto
next
  case (Cons c key)
  let ?arg = "case node of None \<Rightarrow> None | Some a \<Rightarrow> map_of (children (h ! a)) c"
  obtain child h1 where ins: "Insert h ?arg key val = (child, h1)" by force
  have arg_ok: "case ?arg of None \<Rightarrow> True | Some a \<Rightarrow> a < length h"
    using Cons.prems(1,2) closed_store_children[of h]
    by (auto split: option.splits)
  have c1: "closed_store h1" by (rule Cons.IH[OF Cons.prems(1) arg_ok ins])
  from Insert_extends[OF ins] obtain ext where ext: "h1 = h @ ext" "child < length h1" by auto
  obtain n0 where cc: "CopyCreateNewNode h1 node False val = (length h1, h1 @ [n0])"
    and ch: "children n0 = (case node of None \<Rightarrow> [] | Some a \<Rightarrow> children (h1 ! a))"
    using CopyCreateNewNode_shape[of h1 node False val] by auto
  let ?n' = "n0\<lparr>children := AList.update c child (children n0)\<rparr>"
  from Cons.prems(3) ins cc have h': "h' = h1 @ [?n']" by (auto simp: nth_append)
  have node1: "case node of None \<Rightarrow> True | Some a \<Rightarrow> a < length h1"
    using Cons.prems(2) ext by (auto split: option.splits)
  have "\<And>d b. map_of (children n0) d = Some b \<Longrightarrow> b \<le> length h1"
    using ch node1 closed_store_children[OF c1]
    by (cases node) (auto simp: less_imp_le)
  then have "\<And>d b. map_of (children ?n') d = Some b \<Longrightarrow> b \<le> length h1"
    using ext(2) by (auto simp: update_conv' split: if_splits)
  then show ?case unfolding h' using c1 closed_store_snoc by blast
qed

lemma RemoveRecursive_closed:
  assumes "closed_store h" and "case node of None \<Rightarrow> True | Some a \<Rightarrow> a < length h"
    and "RemoveRecursive h node key = (res, h')"
  shows "closed_store h'"
  using assms
proof (induction h node key arbitrary: res h' rule: RemoveRecursive.induct)
  case (1 h key)
  then show ?case by simp
next
  case (2 h a)
  have "\<And>c b. map_of (children (h ! a)) c = Some b \<Longrightarrow> b \<le> length h"
    using "2.prems"(1,2) closed_store_children[of h a] by (auto simp: less_imp_le)
  then have "closed_store (h @ [\<lparr>children = children (h ! a), node_value = None\<rparr>])"
    using "2.prems"(1) by (intro closed_store_snoc) auto
  then show ?case using "2.prems" by (auto simp: make_shared_def split: if_splits)
next
  case (3 h a c key)
  obtain child h1 where rec: "RemoveRecursive h (map_of (children (h ! a)) c) key = (child, h1)"
    by force
  have a: "a < length h" using "3.prems"(2) by simp
  have arg_ok: "case map_of (children (h ! a)) c of None \<Rightarrow> True | Some b \<Rightarrow> b < length h"
    using closed_store_children[OF "3.prems"(1) a] by (auto split: option.splits)
  have c1: "closed_store h1" by (rule "3.IH"[OF "3.prems"(1) arg_ok rec])
  from RemoveRecursive_extends[OF rec] obtain ext where
    ext: "h1 = h @ ext" "case child of None \<Rightarrow> True | Some b \<Rightarrow> b < length h1" by auto
  have a1: "a < length h1" using a ext by simp
  have old: "\<And>d b. map_of (children (h1 ! a)) d = Some b \<Longrightarrow> b \<le> length h1"
    using closed_store_children[OF c1 a1] by (auto simp: less_imp_le)
  show ?case
  proof (cases child)
    case None
    let ?n' = "(h1 ! a)\<lparr>children := AList.delete c (children (h1 ! a))\<rparr>"
    from "3.prems"(3) rec None have h': "h' = h1 @ [?n']" by (auto simp: make_shared_def)
    have "\<And>d b. map_of (children ?n') d = Some b \<Longrightarrow> b \<le> length h1"
      using old by (auto simp: delete_conv' split: if_splits)
    then show ?thesis unfolding h' using c1 closed_store_snoc by blast
  next
    case (Some ch)
    let ?n' = "(h1 ! a)\<lparr>children := AList.update c ch (children (h1 ! a))\<rparr>"
    from "3.prems"(3) rec Some have h': "h' = h1 @ [?n']" by (auto simp: make_shared_def)
    have "\<And>d b. map_of (children ?n') d = Some b \<Longrightarrow> b \<le> length h1"
      using old ext(2) Some by (auto simp: update_conv' split: if_splits)
    then show ?thesis unfolding h' using c1 closed_store_snoc by blast
  qed
qed

lemma Put_closed:
  assumes "closed_store h" "trie_in h t"
  shows "closed_store (snd (Put h t key ty v)) \<and>
         trie_in (snd (Put h t key ty v)) (fst (Put h t key ty v)) \<and>
         trie_in (snd (Put h t key ty v)) t"
proof -
  obtain a h' where ins: "Insert h (root t) key (ty, v) = (a, h')" by force
  have r: "case root t of None \<Rightarrow> True | Some a \<Rightarrow> a < length h"
    using assms(2) by (simp add: trie_in_def)
  from Insert_extends[OF ins] obtain ext where "h' = h @ ext" "a < length h'" by auto
  then show ?thesis using Insert_closed[OF assms(1) r ins] ins assms(2)
    by (auto simp: Put_def trie_in_def split: option.splits)
qed

lemma Remove_trie_closed:
  assumes "closed_store h" "trie_in h t"
  shows "closed_store (snd (Remove_trie h t key)) \<and>
         trie_in (snd (Remove_trie h t key)) (fst (Remove_trie h t key)) \<and>
         trie_in (snd (Remove_trie h t key)) t"
proof -
  obtain res h' where rem: "RemoveRecursive h (root t) key = (res, h')" by force
  have r: "case root t of None \<Rightarrow> True | Some a \<Rightarrow> a < length h"
    using assms(2) by (simp add: trie_in_def)
  from RemoveRecursive_extends[OF rem] obtain ext where
    "h' = h @ ext" "case res of None \<Rightarrow> True | Some a \<Rightarrow> a < length h'" by auto
  then show ?thesis using RemoveRecursive_closed[OF assms(1) r rem] rem assms(2)
    by (auto simp: Remove_trie_def trie_in_def split: option.splits)
qed

lemma closed_store_empty: "closed_store []"
  by (simp add: closed_store_def)

lemma one_key_store_eq:
  "Put [] \<lparr>root = None\<rparr> ''a'' (0::nat) (7::nat) = (one_key_trie, one_key_store)"
  by (simp add: Put_def CopyCreateNewNode_def make_shared_def one_key_trie_def one_key_store_def)

lemma one_key_store_closed: "closed_store one_key_store \<and> trie_in one_key_store one_key_trie"
  by (auto simp: closed_store_def one_key_store_def one_key_trie_def trie_in_def less_Suc_eq
      nth_Cons' split: if_splits)

theorem Remove_Get_witness:
  "closed_store one_key_store \<and> trie_in one_key_store one_key_trie \<and>
   Get (snd (Remove_trie one_key_store one_key_trie ''a''))
       (fst (Remove_trie one_key_store one_key_trie ''a'')) 0 ''a'' = None \<and>
   take (length one_key_store) (snd (Remove_trie one_key_store one_key_trie ''a'')) = one_key_store \<and>
   (\<forall>ty' key'. Get (snd (Remove_trie one_key_store one_key_trie ''a'')) one_key_trie ty' key'
                 = Get one_key_store one_key_trie ty' key') \<and>
   Get one_key_store one_key_trie 0 ''a'' = Some 7"
proof -
  have h: "closed_store one_key_store" "trie_in one_key_store one_key_trie"
    using one_key_store_closed by simp_all
  have "Get one_key_store one_key_trie 0 ''a'' = Some 7"
    by (simp add: Get_def one_key_store_def one_key_trie_def is_value_node_def)
  then show ?thesis using h Remove_Get[OF h, of "''a''" 0] by simp
qed

section \<open>Properties of the buffer pool manager\<close>

subsection \<open>Single calls\<close>

lemmas bpm_defs =
  NewPage_def NewPageHelper_def AllocatePage_def GetAvailableFrameId_def PinPageToFrame_def
  write_back_and_unmap_def DoFetchPage_def FetchPage_def UnpinPage_def FlushPage_def
  DeletePage_def GetPage_def in_pool_def frame_at_def set_frame_def ResetMemory_def
  WritePage_def ReadPage_def GuardDrop_def WriteData_def

lemmas replacer_defs =
  RecordAccess_def GetCurrentTimeStamp_def SetEvictable_def Evict_def node_RecordAccess_def
  LRUKNode_new_def LRUKReplacer_new_def GetKDistance_def Remove_def

lemma Page_update_all:
  "(pg :: Page)\<lparr>data := a, pin_count := c, page_id := b, is_dirty := d\<rparr>
     = \<lparr>data = a, page_id = b, pin_count = c, is_dirty = d\<rparr>"
  by (cases pg) simp

lemma one_pinned_run:
  "bpm_step (BufferPoolManager_new (Suc 0) DiskManager_new 2) OpNewPage = Inr one_pinned"
  by (simp add: one_pinned_def BufferPoolManager_new_def Page_new_def bpm_defs replacer_defs
      INVALID_PAGE_ID_def)

lemma one_unpinned_dirty_run:
  "bpm_step one_pinned (OpUnpinPage 0 True) = Inr one_unpinned_dirty"
  by (simp add: one_pinned_def one_unpinned_dirty_def bpm_defs replacer_defs)

text \<open>
  C3. A failing \<^verbatim>\<open>UnpinPage\<close> is specified to leave the manager unchanged. The code assigns
  \<^verbatim>\<open>is_dirty_\<close> before it tests the pin count: after \<^verbatim>\<open>NewPage\<close> and \<^verbatim>\<open>UnpinPage(0, true)\<close>
  page 0 is dirty with pin count 0; \<^verbatim>\<open>UnpinPage(0, false)\<close> then returns false and has
  cleared the dirty flag.
\<close>

theorem UnpinPage_failure_clears_dirty:
  "bpm_run (BufferPoolManager_new 1 DiskManager_new 2) [OpNewPage, OpUnpinPage 0 True]
     = Inr one_unpinned_dirty \<and>
   is_dirty (frame_at one_unpinned_dirty 0) \<and>
   UnpinPage one_unpinned_dirty 0 False =
     Inr (False, one_unpinned_dirty
            \<lparr>pages := [\<lparr>data = zero_page, page_id = 0, pin_count = 0, is_dirty = False\<rparr>]\<rparr>) \<and>
   one_unpinned_dirty\<lparr>pages := [\<lparr>data = zero_page, page_id = 0, pin_count = 0, is_dirty = False\<rparr>]\<rparr>
     \<noteq> one_unpinned_dirty"
proof -
  have "bpm_run (BufferPoolManager_new 1 DiskManager_new 2) [OpNewPage, OpUnpinPage 0 True]
     = Inr one_unpinned_dirty"
    by (simp add: one_pinned_run one_unpinned_dirty_run del: bpm_step.simps)
  moreover have "UnpinPage one_unpinned_dirty 0 False =
     Inr (False, one_unpinned_dirty
            \<lparr>pages := [\<lparr>data = zero_page, page_id = 0, pin_count = 0, is_dirty = False\<rparr>]\<rparr>)"
    by (simp add: one_unpinned_dirty_def bpm_defs)
  moreover have "one_unpinned_dirty\<lparr>pages := [\<lparr>data = zero_page, page_id = 0, pin_count = 0, is_dirty = False\<rparr>]\<rparr>
     \<noteq> one_unpinned_dirty"
    by (simp add: one_unpinned_dirty_def)
  ultimately show ?thesis by (simp add: one_unpinned_dirty_def frame_at_def)
qed

text \<open>
  C7. \<^verbatim>\<open>DeletePage\<close> returns true and changes nothing when the page is not resident;
  returns false and changes nothing when the page is resident with a positive pin count;
  otherwise it erases the entry of the page table, appends the frame to the free list,
  resets the frame (zero bytes, invalid page id, pin count 0, clean) and returns true.
  The frame that the page table names is a frame of the pool.
\<close>

theorem DeletePage_cases:
  "(page_table s pid = None \<longrightarrow> DeletePage s pid = Inr (True, s)) \<and>
   (\<forall>f. page_table s pid = Some f \<and> in_pool s f \<and> pin_count (frame_at s f) > 0 \<longrightarrow>
        DeletePage s pid = Inr (False, s)) \<and>
   (\<forall>f. page_table s pid = Some f \<and> in_pool s f \<and> \<not> pin_count (frame_at s f) > 0 \<longrightarrow>
        DeletePage s pid =
          Inr (True,
               s\<lparr>page_table := (page_table s)(pid := None),
                 free_list := free_list s @ [f],
                 pages := (pages s)[nat f :=
                    \<lparr>data = zero_page, page_id = INVALID_PAGE_ID, pin_count = 0, is_dirty = False\<rparr>]\<rparr>))"
  by (auto simp: DeletePage_def in_pool_def frame_at_def set_frame_def ResetMemory_def
      Page_update_all)

theorem DeletePage_cases_witness:
  "page_table one_pinned 5 = None \<and> DeletePage one_pinned 5 = Inr (True, one_pinned) \<and>
   page_table one_pinned 0 = Some 0 \<and> in_pool one_pinned 0 \<and> pin_count (frame_at one_pinned 0) > 0 \<and>
   DeletePage one_pinned 0 = Inr (False, one_pinned) \<and>
   page_table one_unpinned_dirty 0 = Some 0 \<and> in_pool one_unpinned_dirty 0 \<and>
   \<not> pin_count (frame_at one_unpinned_dirty 0) > 0 \<and>
   DeletePage one_unpinned_dirty 0 =
     Inr (True,
          one_unpinned_dirty\<lparr>page_table := (page_table one_unpinned_dirty)(0 := None),
            free_list := free_list one_unpinned_dirty @ [0],
            pages := (pages one_unpinned_dirty)[nat 0 :=
               \<lparr>data = zero_page, page_id = INVALID_PAGE_ID, pin_count = 0, is_dirty = False\<rparr>]\<rparr>)"
proof -
  have a: "page_table one_pinned 5 = None" by (simp add: one_pinned_def)
  have b: "page_table one_pinned 0 = Some 0 \<and> in_pool one_pinned 0 \<and> pin_count (frame_at one_pinned 0) > 0"
    by (simp add: one_pinned_def in_pool_def frame_at_def)
  have c: "page_table one_unpinned_dirty 0 = Some 0 \<and> in_pool one_unpinned_dirty 0 \<and>
     \<not> pin_count (frame_at one_unpinned_dirty 0) > 0"
    by (simp add: one_unpinned_dirty_def in_pool_def frame_at_def)
  show ?thesis
    using a b c DeletePage_cases[of one_pinned 5] DeletePage_cases[of one_pinned 0]
      DeletePage_cases[of one_unpinned_dirty 0]
    by blast
qed

text \<open>
  C8. For a resident page with a valid id below \<^verbatim>\<open>next_page_id_\<close>, two calls of
  \<^verbatim>\<open>FlushPage\<close> in a row both return true; the second writes the same bytes to the same
  page as the first, leaves the disk contents and the clean flag as they are, and changes
  nothing else.
\<close>

theorem FlushPage_twice:
  assumes "page_table s p = Some f" and "in_pool s f"
    and "p \<noteq> INVALID_PAGE_ID" and "p < next_page_id s"
  shows "\<exists>s1 s2. FlushPage s p = Inr (True, s1) \<and> FlushPage s1 p = Inr (True, s2) \<and>
           \<not> is_dirty (frame_at s1 f) \<and> \<not> is_dirty (frame_at s2 f) \<and>
           data (frame_at s1 f) = data (frame_at s f) \<and>
           write_log (disk_manager s1) = write_log (disk_manager s) @ [(p, data (frame_at s f))] \<and>
           write_log (disk_manager s2) = write_log (disk_manager s1) @ [(p, data (frame_at s f))] \<and>
           disk_pages (disk_manager s1) p = data (frame_at s f) \<and>
           disk_pages (disk_manager s2) = disk_pages (disk_manager s1) \<and>
           s2 = s1\<lparr>disk_manager := (disk_manager s1)\<lparr>write_log := write_log (disk_manager s2)\<rparr>\<rparr>"
  using assms
  by (simp add: FlushPage_def GetPage_def in_pool_def frame_at_def set_frame_def WritePage_def)

theorem FlushPage_twice_witness:
  "page_table one_unpinned_dirty 0 = Some 0 \<and> in_pool one_unpinned_dirty 0 \<and>
   0 \<noteq> INVALID_PAGE_ID \<and> 0 < next_page_id one_unpinned_dirty \<and>
   (\<exists>s1 s2. FlushPage one_unpinned_dirty 0 = Inr (True, s1) \<and> FlushPage s1 0 = Inr (True, s2) \<and>
           \<not> is_dirty (frame_at s1 0) \<and> \<not> is_dirty (frame_at s2 0) \<and>
           data (frame_at s1 0) = data (frame_at one_unpinned_dirty 0) \<and>
           write_log (disk_manager s1) =
             write_log (disk_manager one_unpinned_dirty) @ [(0, data (frame_at one_unpinned_dirty 0))] \<and>
           write_log (disk_manager s2) =
             write_log (disk_manager s1) @ [(0, data (frame_at one_unpinned_dirty 0))] \<and>
           disk_pages (disk_manager s1) 0 = data (frame_at one_unpinned_dirty 0) \<and>
           disk_pages (disk_manager s2) = disk_pages (disk_manager s1) \<and>
           s2 = s1\<lparr>disk_manager := (disk_manager s1)\<lparr>write_log := write_log (disk_manager s2)\<rparr>\<rparr>)"
proof -
  have h: "page_table one_unpinned_dirty 0 = Some 0" "in_pool one_unpinned_dirty 0"
    "0 \<noteq> INVALID_PAGE_ID" "0 < next_page_id one_unpinned_dirty"
    by (simp_all add: one_unpinned_dirty_def in_pool_def INVALID_PAGE_ID_def)
  show ?thesis using h FlushPage_twice[OF h] by simp
qed

subsection \<open>The invariant and its variant for a frame in transit\<close>

lemma in_pool_set_frame [simp]: "in_pool (set_frame s f pg) g = in_pool s g"
  by (simp add: in_pool_def set_frame_def)

lemma frame_at_set_frame:
  "in_pool s f \<Longrightarrow> in_pool s g \<Longrightarrow>
     frame_at (set_frame s f pg) g = (if g = f then pg else frame_at s g)"
  by (auto simp: in_pool_def frame_at_def set_frame_def)

lemma set_frame_fields [simp]:
  "page_table (set_frame s f pg) = page_table s"
  "free_list (set_frame s f pg) = free_list s"
  "replacer (set_frame s f pg) = replacer s"
  "pool_size (set_frame s f pg) = pool_size s"
  "next_page_id (set_frame s f pg) = next_page_id s"
  "disk_manager (set_frame s f pg) = disk_manager s"
  "length (pages (set_frame s f pg)) = length (pages s)"
  by (simp_all add: set_frame_def)

lemma in_pool_updates [simp]:
  "in_pool (s\<lparr>page_table := pt\<rparr>) g = in_pool s g"
  "in_pool (s\<lparr>free_list := fl\<rparr>) g = in_pool s g"
  "in_pool (s\<lparr>replacer := r\<rparr>) g = in_pool s g"
  "in_pool (s\<lparr>next_page_id := n\<rparr>) g = in_pool s g"
  "in_pool (s\<lparr>disk_manager := d\<rparr>) g = in_pool s g"
  by (simp_all add: in_pool_def)

lemma frame_at_updates [simp]:
  "frame_at (s\<lparr>page_table := pt\<rparr>) g = frame_at s g"
  "frame_at (s\<lparr>free_list := fl\<rparr>) g = frame_at s g"
  "frame_at (s\<lparr>replacer := r\<rparr>) g = frame_at s g"
  "frame_at (s\<lparr>next_page_id := n\<rparr>) g = frame_at s g"
  "frame_at (s\<lparr>disk_manager := d\<rparr>) g = frame_at s g"
  by (simp_all add: frame_at_def)

lemma bpm_inv_imp_except:
  "bpm_inv s \<Longrightarrow> in_pool s f \<Longrightarrow> f \<notin> set (free_list s) \<Longrightarrow> bpm_inv_except s f"
  by (auto simp: bpm_inv_def bpm_inv_except_def frames_tracked_def)

lemma bpm_inv_except_close:
  assumes "bpm_inv_except s f"
    and "\<exists>n. map_of (node_store (replacer s)) f = Some n \<and>
             (is_evictable n \<longleftrightarrow> pin_count (frame_at s f) = 0)"
  shows "bpm_inv s"
  using assms unfolding bpm_inv_def bpm_inv_except_def frames_tracked_def by blast

lemma bpm_inv_except_frame:
  assumes ex: "bpm_inv_except s f"
    and pin: "0 \<le> pin_count pg"
    and pt: "\<And>p g. pt' p = Some g \<Longrightarrow>
               (g = f \<or> page_table s p = Some g) \<and> (g = f \<longrightarrow> page_id pg = p)"
    and s': "pages s' = pages (set_frame s f pg)" "page_table s' = pt'"
      "free_list s' = free_list s" "replacer s' = replacer s" "pool_size s' = pool_size s"
  shows "bpm_inv_except s' f"
proof -
  have wf: "bpm_wf s" and tr: "frames_tracked s {f}" and f: "in_pool s f" "f \<notin> set (free_list s)"
    using ex by (auto simp: bpm_inv_except_def)
  have ip: "\<And>g. in_pool s' g = in_pool s g"
    using s'(1) by (simp add: in_pool_def set_frame_def)
  have fa: "\<And>g. in_pool s g \<Longrightarrow> frame_at s' g = (if g = f then pg else frame_at s g)"
    using s'(1) f(1) by (auto simp: in_pool_def frame_at_def set_frame_def)
  have "bpm_wf s'"
    unfolding bpm_wf_def
  proof (intro conjI ballI allI impI)
    show "pool_size s' < 2 ^ 31" "length (pages s') = pool_size s'"
      "replacer_size (replacer s') = pool_size s'" "replacer_inv (replacer s')"
      "distinct (free_list s')"
      using wf s' by (simp_all add: bpm_wf_def set_frame_def)
  next
    fix g assume g: "g \<in> set (free_list s')"
    then have g0: "g \<in> set (free_list s)" using s'(3) by simp
    then have g1: "in_pool s g" "pin_count (frame_at s g) = 0" "\<forall>p. page_table s p \<noteq> Some g"
      using wf by (auto simp: bpm_wf_def)
    have gf: "g \<noteq> f" using g0 f(2) by auto
    then show "in_pool s' g" "pin_count (frame_at s' g) = 0"
      using g1 ip fa by simp_all
    fix p show "page_table s' p \<noteq> Some g" using g1(3) pt[of p g] s'(2) gf by auto
  next
    fix p g assume "page_table s' p = Some g"
    then have a: "g = f \<or> page_table s p = Some g" "g = f \<longrightarrow> page_id pg = p"
      using pt[of p g] s'(2) by auto
    have b: "in_pool s g" "g \<noteq> f \<longrightarrow> page_id (frame_at s g) = p"
      using a f(1) wf by (auto simp: bpm_wf_def)
    show "in_pool s' g" using b ip by simp
    show "page_id (frame_at s' g) = p" using a b fa by auto
  next
    fix g n assume "map_of (node_store (replacer s')) g = Some n"
    then show "in_pool s' g" using wf s'(4) ip by (auto simp: bpm_wf_def)
  next
    fix g assume "in_pool s' g"
    then have "in_pool s g" using ip by simp
    then show "0 \<le> pin_count (frame_at s' g)"
      using wf fa pin by (auto simp: bpm_wf_def)
  qed
  moreover have "frames_tracked s' {f}"
    using tr ip fa s'(3,4) unfolding frames_tracked_def by auto
  ultimately show ?thesis using f ip s'(3) by (simp add: bpm_inv_except_def)
qed

lemma bpm_inv_except_replacer:
  assumes ex: "bpm_inv_except s f"
    and r: "replacer_inv r'" "replacer_size r' = replacer_size (replacer s)"
      "\<And>g. g \<noteq> f \<Longrightarrow> map_of (node_store r') g = map_of (node_store (replacer s)) g"
  shows "bpm_inv_except (s\<lparr>replacer := r'\<rparr>) f"
proof -
  have wf: "bpm_wf s" and tr: "frames_tracked s {f}" and f: "in_pool s f" "f \<notin> set (free_list s)"
    using ex by (auto simp: bpm_inv_except_def)
  have "\<And>g n. map_of (node_store r') g = Some n \<Longrightarrow> in_pool s g"
  proof -
    fix g n assume "map_of (node_store r') g = Some n"
    then show "in_pool s g" using r(3)[of g] f(1) wf by (cases "g = f") (auto simp: bpm_wf_def)
  qed
  then have "bpm_wf (s\<lparr>replacer := r'\<rparr>)"
    using wf r(1,2) by (auto simp: bpm_wf_def)
  moreover have "frames_tracked (s\<lparr>replacer := r'\<rparr>) {f}"
    using tr r(3) unfolding frames_tracked_def by simp
  ultimately show ?thesis using f by (simp add: bpm_inv_except_def)
qed

lemma bpm_inv_except_free:
  assumes ex: "bpm_inv_except s f"
    and pin: "pin_count (frame_at s f) = 0" and pt: "\<forall>p. page_table s p \<noteq> Some f"
  shows "bpm_inv (s\<lparr>free_list := free_list s @ [f]\<rparr>)"
proof -
  have wf: "bpm_wf s" and tr: "frames_tracked s {f}" and f: "in_pool s f" "f \<notin> set (free_list s)"
    using ex by (auto simp: bpm_inv_except_def)
  have "bpm_wf (s\<lparr>free_list := free_list s @ [f]\<rparr>)"
    using wf f pin pt by (auto simp: bpm_wf_def)
  moreover have "frames_tracked (s\<lparr>free_list := free_list s @ [f]\<rparr>) {}"
    using tr unfolding frames_tracked_def by auto
  ultimately show ?thesis by (simp add: bpm_inv_def)
qed

lemma frames_trackedD:
  "frames_tracked s F \<Longrightarrow> in_pool s f \<Longrightarrow> f \<notin> set (free_list s) \<Longrightarrow> f \<notin> F \<Longrightarrow>
     \<exists>n. map_of (node_store (replacer s)) f = Some n \<and>
         (is_evictable n \<longleftrightarrow> pin_count (frame_at s f) = 0)"
  unfolding frames_tracked_def by blast

lemma bpm_wf_free:
  "bpm_wf s \<Longrightarrow> g \<in> set (free_list s) \<Longrightarrow>
     in_pool s g \<and> pin_count (frame_at s g) = 0 \<and> (\<forall>p. page_table s p \<noteq> Some g)"
  unfolding bpm_wf_def by blast

lemma bpm_wf_table:
  "bpm_wf s \<Longrightarrow> page_table s p = Some f \<Longrightarrow> in_pool s f \<and> page_id (frame_at s f) = p"
  unfolding bpm_wf_def by blast

lemma bpm_wf_node:
  "bpm_wf s \<Longrightarrow> map_of (node_store (replacer s)) f = Some n \<Longrightarrow> in_pool s f"
  unfolding bpm_wf_def by blast

lemma bpm_wf_pin:
  "bpm_wf s \<Longrightarrow> in_pool s f \<Longrightarrow> 0 \<le> pin_count (frame_at s f)"
  unfolding bpm_wf_def by blast

lemma bpm_wf_replacer:
  "bpm_wf s \<Longrightarrow> replacer_inv (replacer s) \<and> replacer_size (replacer s) = pool_size s"
  unfolding bpm_wf_def by blast

lemma bpm_wf_static_cast:
  assumes "bpm_wf s" "in_pool s f"
  shows "f \<le> static_cast_int (replacer_size (replacer s))"
proof -
  have "replacer_size (replacer s) = pool_size s" "pool_size s < 2 ^ 31"
    "length (pages s) = pool_size s"
    using assms(1) by (simp_all add: bpm_wf_def)
  moreover have "f \<le> int (length (pages s))" using assms(2) unfolding in_pool_def by linarith
  ultimately show ?thesis by (simp add: static_cast_int_id)
qed

lemma PinPageToFrame_inv:
  assumes ex: "bpm_inv_except s f"
  shows "\<exists>s'. PinPageToFrame s f = Inr s' \<and> bpm_inv s' \<and>
           pages s' = (pages s)[nat f := (frame_at s f)\<lparr>pin_count := pin_count (frame_at s f) + 1\<rparr>] \<and>
           page_table s' = (page_table s)(page_id (frame_at s f) \<mapsto> f) \<and>
           free_list s' = free_list s \<and> next_page_id s' = next_page_id s \<and>
           disk_manager s' = disk_manager s \<and> pool_size s' = pool_size s"
proof -
  have wf: "bpm_wf s" and f: "in_pool s f" "f \<notin> set (free_list s)"
    using ex by (auto simp: bpm_inv_except_def)
  let ?pg = "(frame_at s f)\<lparr>pin_count := pin_count (frame_at s f) + 1\<rparr>"
  let ?pt = "(page_table s)(page_id (frame_at s f) \<mapsto> f)"
  let ?s2 = "set_frame (s\<lparr>page_table := ?pt\<rparr>) f ?pg"
  have pin: "0 \<le> pin_count (frame_at s f)" using wf f by (simp add: bpm_wf_def)
  have ex1: "bpm_inv_except (s\<lparr>page_table := ?pt\<rparr>) f"
  proof (rule bpm_inv_except_frame[OF ex, where pg = "frame_at s f" and pt' = ?pt])
    show "0 \<le> pin_count (frame_at s f)" by (rule pin)
    show "pages (s\<lparr>page_table := ?pt\<rparr>) = pages (set_frame s f (frame_at s f))"
      by (simp add: set_frame_def frame_at_def)
    show "\<And>p g. ?pt p = Some g \<Longrightarrow>
            (g = f \<or> page_table s p = Some g) \<and> (g = f \<longrightarrow> page_id (frame_at s f) = p)"
    proof -
      fix p g assume a: "?pt p = Some g"
      show "(g = f \<or> page_table s p = Some g) \<and> (g = f \<longrightarrow> page_id (frame_at s f) = p)"
      proof (cases "p = page_id (frame_at s f)")
        case True
        then show ?thesis using a by simp
      next
        case False
        then have "page_table s p = Some g" using a by simp
        moreover have "g = f \<longrightarrow> page_id (frame_at s f) = p"
          using calculation wf by (auto simp: bpm_wf_def)
        ultimately show ?thesis by blast
      qed
    qed
  qed simp_all
  have ex2: "bpm_inv_except ?s2 f"
  proof (rule bpm_inv_except_frame[OF ex1, where pg = ?pg and pt' = ?pt])
    show "0 \<le> pin_count ?pg" using pin by simp
    show "\<And>p g. ?pt p = Some g \<Longrightarrow>
            (g = f \<or> page_table (s\<lparr>page_table := ?pt\<rparr>) p = Some g) \<and> (g = f \<longrightarrow> page_id ?pg = p)"
    proof -
      fix p g assume a: "?pt p = Some g"
      have "g = f \<longrightarrow> page_id ?pg = p"
      proof
        assume g: "g = f"
        show "page_id ?pg = p"
        proof (cases "p = page_id (frame_at s f)")
          case True
          then show ?thesis by simp
        next
          case False
          then have "page_table s p = Some f" using a g by simp
          then have "page_id (frame_at s f) = p" using wf by (simp add: bpm_wf_def)
          then show ?thesis by simp
        qed
      qed
      then show "(g = f \<or> page_table (s\<lparr>page_table := ?pt\<rparr>) p = Some g) \<and> (g = f \<longrightarrow> page_id ?pg = p)"
        using a by simp
    qed
  qed simp_all
  have rinv: "replacer_inv (replacer s)" using wf by (simp add: bpm_wf_def)
  have "0 \<le> f" using f by (simp add: in_pool_def)
  from RecordAccess_ok[OF rinv this bpm_wf_static_cast[OF wf f(1)]]
  obtain r n where r: "RecordAccess (replacer s) f = Inr r" "replacer_inv r"
    "map_of (node_store r) = (map_of (node_store (replacer s)))(f \<mapsto> n)"
    "replacer_size r = replacer_size (replacer s)" by blast
  let ?r' = "SetEvictable r f False"
  have nf: "map_of (node_store r) f = Some n" using r(3) by simp
  have r': "replacer_inv ?r'"
    "map_of (node_store ?r') = (map_of (node_store r))(f \<mapsto> n\<lparr>is_evictable := False\<rparr>)"
    "replacer_size ?r' = replacer_size r"
    using SetEvictable_ok[OF r(2) nf, of False] by simp_all
  let ?s' = "?s2\<lparr>replacer := ?r'\<rparr>"
  have eq: "PinPageToFrame s f = Inr ?s'"
    using r(1) by (simp add: PinPageToFrame_def Let_def)
  have ex3: "bpm_inv_except ?s' f"
    by (rule bpm_inv_except_replacer[OF ex2]) (simp_all add: r' r)
  have fa: "frame_at ?s' f = ?pg" using f(1) by (simp add: frame_at_set_frame)
  have "bpm_inv ?s'"
  proof (rule bpm_inv_except_close[OF ex3])
    show "\<exists>m. map_of (node_store (replacer ?s')) f = Some m \<and>
             (is_evictable m \<longleftrightarrow> pin_count (frame_at ?s' f) = 0)"
      using r'(2) pin unfolding fa by (intro exI[of _ "n\<lparr>is_evictable := False\<rparr>"]) simp
  qed
  moreover have "pages ?s' = (pages s)[nat f := ?pg]" by (simp add: set_frame_def)
  moreover have "page_table ?s' = ?pt" "free_list ?s' = free_list s"
    "next_page_id ?s' = next_page_id s" "disk_manager ?s' = disk_manager s"
    "pool_size ?s' = pool_size s" by simp_all
  ultimately show ?thesis using eq by blast
qed


lemma all_pinned_iff:
  assumes "bpm_inv s"
  shows "(free_list s = [] \<and> (\<forall>f n. map_of (node_store (replacer s)) f = Some n \<longrightarrow> \<not> is_evictable n))
           \<longleftrightarrow> (\<forall>f. in_pool s f \<longrightarrow> 0 < pin_count (frame_at s f))"
proof
  have wf: "bpm_wf s" and tr: "frames_tracked s {}" using assms by (simp_all add: bpm_inv_def)
  assume a: "free_list s = [] \<and> (\<forall>f n. map_of (node_store (replacer s)) f = Some n \<longrightarrow> \<not> is_evictable n)"
  show "\<forall>f. in_pool s f \<longrightarrow> 0 < pin_count (frame_at s f)"
  proof (intro allI impI)
    fix f assume f: "in_pool s f"
    have "f \<notin> set (free_list s)" using a by simp
    from frames_trackedD[OF tr f this] obtain n where n: "map_of (node_store (replacer s)) f = Some n"
      "is_evictable n \<longleftrightarrow> pin_count (frame_at s f) = 0" by blast
    have "\<not> is_evictable n" using a n(1) by blast
    then have "pin_count (frame_at s f) \<noteq> 0" using n(2) by simp
    moreover have "0 \<le> pin_count (frame_at s f)" by (rule bpm_wf_pin[OF wf f])
    ultimately show "0 < pin_count (frame_at s f)" by simp
  qed
next
  have wf: "bpm_wf s" and tr: "frames_tracked s {}" using assms by (simp_all add: bpm_inv_def)
  assume b: "\<forall>f. in_pool s f \<longrightarrow> 0 < pin_count (frame_at s f)"
  have e: "free_list s = []"
  proof (rule ccontr)
    assume "free_list s \<noteq> []"
    then obtain g where "g \<in> set (free_list s)" by (cases "free_list s") auto
    then have "in_pool s g" "pin_count (frame_at s g) = 0" using bpm_wf_free[OF wf] by blast+
    moreover from this(1) have "0 < pin_count (frame_at s g)" using b by blast
    ultimately show False by simp
  qed
  moreover have "\<forall>f n. map_of (node_store (replacer s)) f = Some n \<longrightarrow> \<not> is_evictable n"
  proof (intro allI impI)
    fix f n assume n: "map_of (node_store (replacer s)) f = Some n"
    have f: "in_pool s f" by (rule bpm_wf_node[OF wf n])
    have "f \<notin> set (free_list s)" using e by simp
    from frames_trackedD[OF tr f this] n
    have "is_evictable n \<longleftrightarrow> pin_count (frame_at s f) = 0" by simp
    moreover have "0 < pin_count (frame_at s f)" using b f by blast
    ultimately show "\<not> is_evictable n" by simp
  qed
  ultimately show "free_list s = [] \<and> (\<forall>f n. map_of (node_store (replacer s)) f = Some n \<longrightarrow> \<not> is_evictable n)"
    by blast
qed

lemma bpm_wf_pop:
  assumes wf: "bpm_wf s" and fl: "free_list s = f # rest"
  shows "bpm_wf (s\<lparr>free_list := rest\<rparr>)"
proof -
  have "distinct (free_list s)" using wf unfolding bpm_wf_def by blast
  then have d: "distinct rest" using fl by simp
  have "\<forall>g \<in> set rest. in_pool s g \<and> pin_count (frame_at s g) = 0 \<and> (\<forall>p. page_table s p \<noteq> Some g)"
    using bpm_wf_free[OF wf] fl by simp
  then show ?thesis using wf d unfolding bpm_wf_def by simp
qed

lemma GetAvailableFrameId_ok:
  assumes inv: "bpm_inv s"
  shows "\<exists>res s1. GetAvailableFrameId s = Inr (res, s1) \<and>
           pages s1 = pages s \<and> page_table s1 = page_table s \<and>
           next_page_id s1 = next_page_id s \<and> disk_manager s1 = disk_manager s \<and>
           pool_size s1 = pool_size s \<and>
           (case res of
              None \<Rightarrow> bpm_inv s1 \<and> (\<forall>f. in_pool s f \<longrightarrow> 0 < pin_count (frame_at s f))
            | Some f \<Rightarrow> bpm_inv_except s1 f \<and> in_pool s f \<and> pin_count (frame_at s f) = 0)"
proof (cases "free_list s")
  case (Cons f rest)
  have wf: "bpm_wf s" and tr: "frames_tracked s {}" using inv by (simp_all add: bpm_inv_def)
  have "f \<in> set (free_list s)" using Cons by simp
  from bpm_wf_free[OF wf this] have f: "in_pool s f" "pin_count (frame_at s f) = 0" by blast+
  have "distinct (free_list s)" using wf unfolding bpm_wf_def by blast
  then have nf: "f \<notin> set rest" using Cons by simp
  have "frames_tracked (s\<lparr>free_list := rest\<rparr>) {f}"
    unfolding frames_tracked_def
  proof (intro allI impI)
    fix g assume g: "in_pool (s\<lparr>free_list := rest\<rparr>) g \<and> g \<notin> set (free_list (s\<lparr>free_list := rest\<rparr>)) \<and> g \<notin> {f}"
    then have "in_pool s g" "g \<notin> set (free_list s)" using Cons by simp_all
    from frames_trackedD[OF tr this]
    show "\<exists>n. map_of (node_store (replacer (s\<lparr>free_list := rest\<rparr>))) g = Some n \<and>
            (is_evictable n \<longleftrightarrow> pin_count (frame_at (s\<lparr>free_list := rest\<rparr>) g) = 0)"
      by simp
  qed
  then have "bpm_inv_except (s\<lparr>free_list := rest\<rparr>) f"
    using bpm_wf_pop[OF wf Cons] f nf by (simp add: bpm_inv_except_def)
  moreover have "GetAvailableFrameId s = Inr (Some f, s\<lparr>free_list := rest\<rparr>)"
    using Cons by (simp add: GetAvailableFrameId_def)
  ultimately show ?thesis using f by simp
next
  case Nil
  have wf: "bpm_wf s" and tr: "frames_tracked s {}" using inv by (simp_all add: bpm_inv_def)
  have rinv: "replacer_inv (replacer s)" using bpm_wf_replacer[OF wf] by simp
  from Evict_ok[OF rinv] obtain res r' where
    ev: "Evict (replacer s) = Inr (res, r')" "replacer_inv r'"
      "replacer_size r' = replacer_size (replacer s)" and
    post: "case res of
              None \<Rightarrow>
                (\<forall>f n. map_of (node_store (replacer s)) f = Some n \<longrightarrow> \<not> is_evictable n) \<and>
                node_store r' = node_store (replacer s) \<and> curr_size r' = curr_size (replacer s)
            | Some f \<Rightarrow>
                (\<exists>c. map_of (node_store (replacer s)) f = Some c \<and> is_evictable c \<and>
                   (\<forall>g n. map_of (node_store (replacer s)) g = Some n \<and> is_evictable n \<longrightarrow>
                      no_better (current_timestamp (replacer s)) c n)) \<and>
                node_store r' = AList.delete f (node_store (replacer s)) \<and>
                curr_size r' + 1 = curr_size (replacer s)"
    by blast
  have eq: "GetAvailableFrameId s = Inr (res, s\<lparr>replacer := r'\<rparr>)"
    using Nil ev(1) by (simp add: GetAvailableFrameId_def)
  show ?thesis
  proof (cases res)
    case None
    with post have none: "\<forall>f n. map_of (node_store (replacer s)) f = Some n \<longrightarrow> \<not> is_evictable n"
      and ns: "node_store r' = node_store (replacer s)" by simp_all
    have "bpm_wf (s\<lparr>replacer := r'\<rparr>)" using wf ev(2,3) ns unfolding bpm_wf_def by simp
    moreover have "frames_tracked (s\<lparr>replacer := r'\<rparr>) {}"
      using tr ns unfolding frames_tracked_def by simp
    ultimately have "bpm_inv (s\<lparr>replacer := r'\<rparr>)" by (simp add: bpm_inv_def)
    moreover have "\<forall>f. in_pool s f \<longrightarrow> 0 < pin_count (frame_at s f)"
      using all_pinned_iff[OF inv] Nil none by blast
    ultimately show ?thesis using eq None by simp
  next
    case (Some f)
    with post obtain c where c: "map_of (node_store (replacer s)) f = Some c" "is_evictable c"
      and ns: "node_store r' = AList.delete f (node_store (replacer s))" by auto
    have f: "in_pool s f" by (rule bpm_wf_node[OF wf c(1)])
    have nfl: "f \<notin> set (free_list s)" using Nil by simp
    from frames_trackedD[OF tr f nfl] c
    have pin: "pin_count (frame_at s f) = 0" by simp
    have "bpm_inv_except s f" by (rule bpm_inv_imp_except[OF inv f nfl])
    then have "bpm_inv_except (s\<lparr>replacer := r'\<rparr>) f"
      by (rule bpm_inv_except_replacer) (simp_all add: ev ns delete_conv')
    then show ?thesis using eq Some f pin by simp
  qed
qed

subsection \<open>What the operations do to a manager that satisfies the invariant\<close>

lemma frame_at_list_update:
  "in_pool s f \<Longrightarrow> pages s' = (pages s)[nat f := pg] \<Longrightarrow> frame_at s' f = pg"
  by (simp add: in_pool_def frame_at_def)

lemma install_ok:
  assumes ex: "bpm_inv_except s1 f"
    and pg: "pin_count pg = 0"
    and s3: "pages s3 = (pages s1)[nat f := pg]"
      "page_table s3 = (page_table s1)(page_id (frame_at s1 f) := None)"
      "free_list s3 = free_list s1" "replacer s3 = replacer s1" "pool_size s3 = pool_size s1"
  shows "\<exists>s'. PinPageToFrame s3 f = Inr s' \<and> bpm_inv s' \<and>
           pages s' = (pages s1)[nat f := pg\<lparr>pin_count := 1\<rparr>] \<and>
           page_table s' = ((page_table s1)(page_id (frame_at s1 f) := None))(page_id pg \<mapsto> f) \<and>
           next_page_id s' = next_page_id s3 \<and> disk_manager s' = disk_manager s3 \<and>
           pool_size s' = pool_size s1"
proof -
  have wf: "bpm_wf s1" and f: "in_pool s1 f" using ex by (simp_all add: bpm_inv_except_def)
  let ?pt = "(page_table s1)(page_id (frame_at s1 f) := None)"
  have ex3: "bpm_inv_except s3 f"
  proof (rule bpm_inv_except_frame[OF ex, where pg = pg and pt' = ?pt])
    show "0 \<le> pin_count pg" using pg by simp
    show "pages s3 = pages (set_frame s1 f pg)" using s3(1) by (simp add: set_frame_def)
    show "\<And>p g. ?pt p = Some g \<Longrightarrow>
            (g = f \<or> page_table s1 p = Some g) \<and> (g = f \<longrightarrow> page_id pg = p)"
    proof -
      fix p g assume a: "?pt p = Some g"
      then have b: "p \<noteq> page_id (frame_at s1 f)" "page_table s1 p = Some g"
        by (auto split: if_splits)
      have "g \<noteq> f" using bpm_wf_table[OF wf b(2)] b(1) by auto
      then show "(g = f \<or> page_table s1 p = Some g) \<and> (g = f \<longrightarrow> page_id pg = p)"
        using b(2) by simp
    qed
  qed (simp_all add: s3)
  have f3: "in_pool s3 f" using f s3(1) by (simp add: in_pool_def)
  have fa: "frame_at s3 f = pg" by (rule frame_at_list_update[OF f s3(1)])
  from PinPageToFrame_inv[OF ex3] obtain s' where
    s': "PinPageToFrame s3 f = Inr s'" "bpm_inv s'"
      "pages s' = (pages s3)[nat f := (frame_at s3 f)\<lparr>pin_count := pin_count (frame_at s3 f) + 1\<rparr>]"
      "page_table s' = (page_table s3)(page_id (frame_at s3 f) \<mapsto> f)"
      "next_page_id s' = next_page_id s3" "disk_manager s' = disk_manager s3"
      "pool_size s' = pool_size s3"
    by blast
  have "pages s' = (pages s1)[nat f := pg\<lparr>pin_count := 1\<rparr>]"
    using s'(3) fa s3(1) pg by simp
  moreover have "page_table s' = ?pt(page_id pg \<mapsto> f)" using s'(4) fa s3(2) by simp
  ultimately show ?thesis using s' s3(5) by simp
qed

lemma write_back_and_unmap_fields:
  "pages (write_back_and_unmap s f) = pages s"
  "page_table (write_back_and_unmap s f) = (page_table s)(page_id (frame_at s f) := None)"
  "free_list (write_back_and_unmap s f) = free_list s"
  "replacer (write_back_and_unmap s f) = replacer s"
  "pool_size (write_back_and_unmap s f) = pool_size s"
  "next_page_id (write_back_and_unmap s f) = next_page_id s"
  "disk_manager (write_back_and_unmap s f) =
     (if is_dirty (frame_at s f)
      then WritePage (disk_manager s) (page_id (frame_at s f)) (data (frame_at s f))
      else disk_manager s)"
  "frame_at (write_back_and_unmap s f) g = frame_at s g"
  "in_pool (write_back_and_unmap s f) g = in_pool s g"
  by (simp_all add: write_back_and_unmap_def Let_def frame_at_def in_pool_def)

lemma Page_fresh_eq:
  "(ResetMemory pg)\<lparr>page_id := p, pin_count := c, is_dirty := d\<rparr>
     = \<lparr>data = zero_page, page_id = p, pin_count = c, is_dirty = d\<rparr>"
  by (cases pg) (simp add: ResetMemory_def)

lemma Page_loaded_eq:
  "(pg :: Page)\<lparr>data := b, page_id := p, pin_count := c, is_dirty := d\<rparr>
     = \<lparr>data = b, page_id = p, pin_count = c, is_dirty = d\<rparr>"
  by (cases pg) simp

lemma NewPage_ok:
  assumes inv: "bpm_inv s"
  shows "(\<exists>s'. NewPage s = Inr (None, s') \<and> bpm_inv s' \<and>
            pages s' = pages s \<and> page_table s' = page_table s \<and>
            disk_manager s' = disk_manager s \<and> next_page_id s' = next_page_id s \<and>
            pool_size s' = pool_size s \<and>
            (\<forall>f. in_pool s f \<longrightarrow> 0 < pin_count (frame_at s f))) \<or>
         (\<exists>f s'. NewPage s = Inr (Some (next_page_id s, f), s') \<and> bpm_inv s' \<and>
            in_pool s f \<and> pin_count (frame_at s f) = 0 \<and>
            pages s' = (pages s)[nat f :=
               \<lparr>data = zero_page, page_id = next_page_id s, pin_count = 1, is_dirty = False\<rparr>] \<and>
            page_table s' = ((page_table s)(page_id (frame_at s f) := None))(next_page_id s \<mapsto> f) \<and>
            disk_manager s' =
              (if is_dirty (frame_at s f)
               then WritePage (disk_manager s) (page_id (frame_at s f)) (data (frame_at s f))
               else disk_manager s) \<and>
            next_page_id s' = int32_wrap (next_page_id s + 1) \<and> pool_size s' = pool_size s)"
proof -
  from GetAvailableFrameId_ok[OF inv] obtain res s1 where
    g: "GetAvailableFrameId s = Inr (res, s1)" "pages s1 = pages s" "page_table s1 = page_table s"
      "next_page_id s1 = next_page_id s" "disk_manager s1 = disk_manager s"
      "pool_size s1 = pool_size s" and
    post: "case res of
              None \<Rightarrow> bpm_inv s1 \<and> (\<forall>f. in_pool s f \<longrightarrow> 0 < pin_count (frame_at s f))
            | Some f \<Rightarrow> bpm_inv_except s1 f \<and> in_pool s f \<and> pin_count (frame_at s f) = 0"
    by blast
  show ?thesis
  proof (cases res)
    case None
    then have "NewPage s = Inr (None, s1)" using g(1) by (simp add: NewPage_def)
    then show ?thesis using None post g by simp
  next
    case (Some f)
    with post have ex: "bpm_inv_except s1 f" and f: "in_pool s f" "pin_count (frame_at s f) = 0"
      by simp_all
    have f1: "in_pool s1 f" using f(1) g(2) by (simp add: in_pool_def)
    have fa1: "frame_at s1 f = frame_at s f" using g(2) by (simp add: frame_at_def)
    let ?w = "write_back_and_unmap s1 f"
    let ?pg = "\<lparr>data = zero_page, page_id = next_page_id s, pin_count = 0, is_dirty = False\<rparr>"
    let ?s3 = "set_frame (?w\<lparr>next_page_id := int32_wrap (next_page_id ?w + 1)\<rparr>) f ?pg"
    have helper: "NewPageHelper ?w f =
        (case PinPageToFrame ?s3 f of Inl e \<Rightarrow> Inl e
         | Inr s2 \<Rightarrow> Inr (Some (next_page_id s, f), s2))"
      by (simp add: NewPageHelper_def AllocatePage_def Let_def Page_fresh_eq
          write_back_and_unmap_fields g(4))
    have np: "NewPage s = NewPageHelper ?w f"
      using g(1) Some f1 by (simp add: NewPage_def)
    have "\<exists>s'. PinPageToFrame ?s3 f = Inr s' \<and> bpm_inv s' \<and>
           pages s' = (pages s1)[nat f := ?pg\<lparr>pin_count := 1\<rparr>] \<and>
           page_table s' = ((page_table s1)(page_id (frame_at s1 f) := None))(page_id ?pg \<mapsto> f) \<and>
           next_page_id s' = next_page_id ?s3 \<and> disk_manager s' = disk_manager ?s3 \<and>
           pool_size s' = pool_size s1"
      by (rule install_ok[OF ex]) (simp_all add: write_back_and_unmap_fields set_frame_def)
    then obtain s' where s': "PinPageToFrame ?s3 f = Inr s'" "bpm_inv s'"
      "pages s' = (pages s1)[nat f := ?pg\<lparr>pin_count := 1\<rparr>]"
      "page_table s' = ((page_table s1)(page_id (frame_at s1 f) := None))(page_id ?pg \<mapsto> f)"
      "next_page_id s' = next_page_id ?s3" "disk_manager s' = disk_manager ?s3"
      "pool_size s' = pool_size s1" by blast
    have "NewPage s = Inr (Some (next_page_id s, f), s')" using np helper s'(1) by simp
    moreover have "pages s' = (pages s)[nat f :=
               \<lparr>data = zero_page, page_id = next_page_id s, pin_count = 1, is_dirty = False\<rparr>]"
      using s'(3) g(2) by simp
    moreover have "page_table s' = ((page_table s)(page_id (frame_at s f) := None))(next_page_id s \<mapsto> f)"
      using s'(4) g(3) fa1 by simp
    moreover have "disk_manager s' =
              (if is_dirty (frame_at s f)
               then WritePage (disk_manager s) (page_id (frame_at s f)) (data (frame_at s f))
               else disk_manager s)"
      using s'(6) g(5) fa1 by (simp add: write_back_and_unmap_fields)
    moreover have "next_page_id s' = int32_wrap (next_page_id s + 1)"
      using s'(5) g(4) by (simp add: write_back_and_unmap_fields)
    moreover have "pool_size s' = pool_size s" using s'(7) g(6) by simp
    ultimately have "NewPage s = Inr (Some (next_page_id s, f), s') \<and> bpm_inv s' \<and>
            in_pool s f \<and> pin_count (frame_at s f) = 0 \<and>
            pages s' = (pages s)[nat f :=
               \<lparr>data = zero_page, page_id = next_page_id s, pin_count = 1, is_dirty = False\<rparr>] \<and>
            page_table s' = ((page_table s)(page_id (frame_at s f) := None))(next_page_id s \<mapsto> f) \<and>
            disk_manager s' =
              (if is_dirty (frame_at s f)
               then WritePage (disk_manager s) (page_id (frame_at s f)) (data (frame_at s f))
               else disk_manager s) \<and>
            next_page_id s' = int32_wrap (next_page_id s + 1) \<and> pool_size s' = pool_size s"
      using s'(2) f by (intro conjI)
    then show ?thesis by (intro disjI2 exI[of _ f] exI[of _ s'])
  qed
qed

lemma bpm_wf_table_not_free:
  "bpm_wf s \<Longrightarrow> page_table s p = Some f \<Longrightarrow> f \<notin> set (free_list s)"
  using bpm_wf_free by blast

lemma FetchPage_ok:
  assumes inv: "bpm_inv s"
  shows "(pid = INVALID_PAGE_ID \<and> FetchPage s pid = Inr (None, s)) \<or>
         (\<exists>f s'. pid \<noteq> INVALID_PAGE_ID \<and> page_table s pid = Some f \<and>
            FetchPage s pid = Inr (Some f, s') \<and> bpm_inv s' \<and> in_pool s f \<and>
            pages s' = (pages s)[nat f :=
               (frame_at s f)\<lparr>is_dirty := True, pin_count := pin_count (frame_at s f) + 1\<rparr>] \<and>
            page_table s' = page_table s \<and> disk_manager s' = disk_manager s \<and>
            next_page_id s' = next_page_id s \<and> pool_size s' = pool_size s) \<or>
         (\<exists>s'. pid \<noteq> INVALID_PAGE_ID \<and> page_table s pid = None \<and>
            FetchPage s pid = Inr (None, s') \<and> bpm_inv s' \<and>
            pages s' = pages s \<and> page_table s' = page_table s \<and>
            disk_manager s' = disk_manager s \<and> next_page_id s' = next_page_id s \<and>
            pool_size s' = pool_size s \<and>
            (\<forall>f. in_pool s f \<longrightarrow> 0 < pin_count (frame_at s f))) \<or>
         (\<exists>f s'. pid \<noteq> INVALID_PAGE_ID \<and> page_table s pid = None \<and>
            FetchPage s pid = Inr (Some f, s') \<and> bpm_inv s' \<and>
            in_pool s f \<and> pin_count (frame_at s f) = 0 \<and>
            disk_manager s' =
              (if is_dirty (frame_at s f)
               then WritePage (disk_manager s) (page_id (frame_at s f)) (data (frame_at s f))
               else disk_manager s) \<and>
            pages s' = (pages s)[nat f :=
               \<lparr>data = ReadPage (disk_manager s') pid, page_id = pid, pin_count = 1,
                is_dirty = False\<rparr>] \<and>
            page_table s' = ((page_table s)(page_id (frame_at s f) := None))(pid \<mapsto> f) \<and>
            next_page_id s' = next_page_id s \<and> pool_size s' = pool_size s)"
proof -
  have wf: "bpm_wf s" using inv by (simp add: bpm_inv_def)
  consider (invalid) "pid = INVALID_PAGE_ID"
    | (hit) f where "pid \<noteq> INVALID_PAGE_ID" "page_table s pid = Some f"
    | (miss) "pid \<noteq> INVALID_PAGE_ID" "page_table s pid = None"
    by (cases "page_table s pid") auto
  then show ?thesis
  proof cases
    case invalid
    then show ?thesis by (simp add: FetchPage_def DoFetchPage_def)
  next
    case hit
    have f: "in_pool s f" "page_id (frame_at s f) = pid" using bpm_wf_table[OF wf hit(2)] by simp_all
    have nfl: "f \<notin> set (free_list s)" by (rule bpm_wf_table_not_free[OF wf hit(2)])
    have ex: "bpm_inv_except s f" by (rule bpm_inv_imp_except[OF inv f(1) nfl])
    let ?pg = "(frame_at s f)\<lparr>is_dirty := True\<rparr>"
    let ?s0 = "set_frame s f ?pg"
    have ex0: "bpm_inv_except ?s0 f"
    proof (rule bpm_inv_except_frame[OF ex, where pg = ?pg and pt' = "page_table s"])
      show "0 \<le> pin_count ?pg" using bpm_wf_pin[OF wf f(1)] by simp
      show "\<And>p g. page_table s p = Some g \<Longrightarrow>
              (g = f \<or> page_table s p = Some g) \<and> (g = f \<longrightarrow> page_id ?pg = p)"
        using bpm_wf_table[OF wf] by auto
    qed simp_all
    have fa0: "frame_at ?s0 f = ?pg" using f(1) by (simp add: frame_at_set_frame)
    from PinPageToFrame_inv[OF ex0] obtain s' where
      s': "PinPageToFrame ?s0 f = Inr s'" "bpm_inv s'"
        "pages s' = (pages ?s0)[nat f := (frame_at ?s0 f)\<lparr>pin_count := pin_count (frame_at ?s0 f) + 1\<rparr>]"
        "page_table s' = (page_table ?s0)(page_id (frame_at ?s0 f) \<mapsto> f)"
        "next_page_id s' = next_page_id ?s0" "disk_manager s' = disk_manager ?s0"
        "pool_size s' = pool_size ?s0"
      by blast
    have "FetchPage s pid = Inr (Some f, s')"
      using hit f(1) s'(1) by (simp add: FetchPage_def DoFetchPage_def)
    moreover have "pages s' = (pages s)[nat f :=
               (frame_at s f)\<lparr>is_dirty := True, pin_count := pin_count (frame_at s f) + 1\<rparr>]"
      using s'(3) unfolding fa0 by (simp add: set_frame_def)
    moreover have "page_table s' = page_table s"
      using s'(4) hit(2) f(2) unfolding fa0 by (simp add: fun_upd_idem)
    moreover have "disk_manager s' = disk_manager s" "next_page_id s' = next_page_id s"
      "pool_size s' = pool_size s" using s'(5-7) by simp_all
    ultimately have "pid \<noteq> INVALID_PAGE_ID \<and> page_table s pid = Some f \<and>
            FetchPage s pid = Inr (Some f, s') \<and> bpm_inv s' \<and> in_pool s f \<and>
            pages s' = (pages s)[nat f :=
               (frame_at s f)\<lparr>is_dirty := True, pin_count := pin_count (frame_at s f) + 1\<rparr>] \<and>
            page_table s' = page_table s \<and> disk_manager s' = disk_manager s \<and>
            next_page_id s' = next_page_id s \<and> pool_size s' = pool_size s"
      using hit f(1) s'(2) by (intro conjI)
    then show ?thesis by (intro disjI2 disjI1 exI[of _ f] exI[of _ s'])
  next
    case miss
    from GetAvailableFrameId_ok[OF inv] obtain res s1 where
      g: "GetAvailableFrameId s = Inr (res, s1)" "pages s1 = pages s" "page_table s1 = page_table s"
        "next_page_id s1 = next_page_id s" "disk_manager s1 = disk_manager s"
        "pool_size s1 = pool_size s" and
      post: "case res of
                None \<Rightarrow> bpm_inv s1 \<and> (\<forall>f. in_pool s f \<longrightarrow> 0 < pin_count (frame_at s f))
              | Some f \<Rightarrow> bpm_inv_except s1 f \<and> in_pool s f \<and> pin_count (frame_at s f) = 0"
      by blast
    show ?thesis
    proof (cases res)
      case None
      then have "FetchPage s pid = Inr (None, s1)"
        using g(1) miss by (simp add: FetchPage_def DoFetchPage_def)
      then have "pid \<noteq> INVALID_PAGE_ID \<and> page_table s pid = None \<and>
            FetchPage s pid = Inr (None, s1) \<and> bpm_inv s1 \<and>
            pages s1 = pages s \<and> page_table s1 = page_table s \<and>
            disk_manager s1 = disk_manager s \<and> next_page_id s1 = next_page_id s \<and>
            pool_size s1 = pool_size s \<and>
            (\<forall>f. in_pool s f \<longrightarrow> 0 < pin_count (frame_at s f))"
        using None post g miss by simp
      then show ?thesis by (intro disjI2 disjI1 exI[of _ s1])
    next
      case (Some f)
      with post have ex: "bpm_inv_except s1 f" and f: "in_pool s f" "pin_count (frame_at s f) = 0"
        by simp_all
      have f1: "in_pool s1 f" using f(1) g(2) by (simp add: in_pool_def)
      have fa1: "frame_at s1 f = frame_at s f" using g(2) by (simp add: frame_at_def)
      let ?w = "write_back_and_unmap s1 f"
      let ?pg = "\<lparr>data = ReadPage (disk_manager ?w) pid, page_id = pid, pin_count = 0, is_dirty = False\<rparr>"
      let ?s3 = "set_frame ?w f ?pg"
      have fp: "FetchPage s pid =
          (case PinPageToFrame ?s3 f of Inl e \<Rightarrow> Inl e | Inr s3 \<Rightarrow> Inr (Some f, s3))"
        using g(1) Some f1 miss
        by (simp add: FetchPage_def DoFetchPage_def Let_def Page_loaded_eq)
      have "\<exists>s'. PinPageToFrame ?s3 f = Inr s' \<and> bpm_inv s' \<and>
           pages s' = (pages s1)[nat f := ?pg\<lparr>pin_count := 1\<rparr>] \<and>
           page_table s' = ((page_table s1)(page_id (frame_at s1 f) := None))(page_id ?pg \<mapsto> f) \<and>
           next_page_id s' = next_page_id ?s3 \<and> disk_manager s' = disk_manager ?s3 \<and>
           pool_size s' = pool_size s1"
        by (rule install_ok[OF ex]) (simp_all add: write_back_and_unmap_fields set_frame_def)
      then obtain s' where s': "PinPageToFrame ?s3 f = Inr s'" "bpm_inv s'"
        "pages s' = (pages s1)[nat f := ?pg\<lparr>pin_count := 1\<rparr>]"
        "page_table s' = ((page_table s1)(page_id (frame_at s1 f) := None))(page_id ?pg \<mapsto> f)"
        "next_page_id s' = next_page_id ?s3" "disk_manager s' = disk_manager ?s3"
        "pool_size s' = pool_size s1" by blast
      have dm: "disk_manager s' =
              (if is_dirty (frame_at s f)
               then WritePage (disk_manager s) (page_id (frame_at s f)) (data (frame_at s f))
               else disk_manager s)"
        using s'(6) g(5) fa1 by (simp add: write_back_and_unmap_fields)
      have dw: "disk_manager ?w = disk_manager s'" using s'(6) by simp
      have "FetchPage s pid = Inr (Some f, s')" using fp s'(1) by simp
      moreover have "pages s' = (pages s)[nat f :=
               \<lparr>data = ReadPage (disk_manager s') pid, page_id = pid, pin_count = 1,
                is_dirty = False\<rparr>]"
        using s'(3) g(2) unfolding dw by simp
      moreover have "page_table s' = ((page_table s)(page_id (frame_at s f) := None))(pid \<mapsto> f)"
        using s'(4) g(3) fa1 by simp
      moreover have "next_page_id s' = next_page_id s"
        using s'(5) g(4) by (simp add: write_back_and_unmap_fields)
      moreover have "pool_size s' = pool_size s" using s'(7) g(6) by simp
      ultimately have "pid \<noteq> INVALID_PAGE_ID \<and> page_table s pid = None \<and>
            FetchPage s pid = Inr (Some f, s') \<and> bpm_inv s' \<and>
            in_pool s f \<and> pin_count (frame_at s f) = 0 \<and>
            disk_manager s' =
              (if is_dirty (frame_at s f)
               then WritePage (disk_manager s) (page_id (frame_at s f)) (data (frame_at s f))
               else disk_manager s) \<and>
            pages s' = (pages s)[nat f :=
               \<lparr>data = ReadPage (disk_manager s') pid, page_id = pid, pin_count = 1,
                is_dirty = False\<rparr>] \<and>
            page_table s' = ((page_table s)(page_id (frame_at s f) := None))(pid \<mapsto> f) \<and>
            next_page_id s' = next_page_id s \<and> pool_size s' = pool_size s"
        using miss s'(2) f dm by (intro conjI)
      then show ?thesis by (intro disjI2 exI[of _ f] exI[of _ s'])
    qed
  qed
qed

lemma bpm_inv_same_meta:
  assumes inv: "bpm_inv s"
    and len: "length (pages s') = length (pages s)"
    and meta: "\<And>g. in_pool s g \<Longrightarrow>
        pin_count (frame_at s' g) = pin_count (frame_at s g) \<and>
        page_id (frame_at s' g) = page_id (frame_at s g)"
    and same: "page_table s' = page_table s" "free_list s' = free_list s"
      "replacer s' = replacer s" "pool_size s' = pool_size s"
  shows "bpm_inv s'"
proof -
  have wf: "bpm_wf s" and tr: "frames_tracked s {}" using inv by (simp_all add: bpm_inv_def)
  have ip: "\<And>g. in_pool s' g = in_pool s g" using len by (simp add: in_pool_def)
  have "bpm_wf s'"
    unfolding bpm_wf_def
  proof (intro conjI ballI allI impI)
    show "pool_size s' < 2 ^ 31" "length (pages s') = pool_size s'"
      "replacer_size (replacer s') = pool_size s'" "replacer_inv (replacer s')"
      "distinct (free_list s')"
      using wf same len by (simp_all add: bpm_wf_def)
  next
    fix g assume "g \<in> set (free_list s')"
    then have g0: "g \<in> set (free_list s)" using same(2) by simp
    from bpm_wf_free[OF wf g0] have g1: "in_pool s g" "pin_count (frame_at s g) = 0"
      "\<forall>p. page_table s p \<noteq> Some g" by blast+
    show "in_pool s' g" using g1(1) ip by simp
    show "pin_count (frame_at s' g) = 0" using meta[OF g1(1)] g1(2) by simp
    fix p show "page_table s' p \<noteq> Some g" using g1(3) same(1) by simp
  next
    fix p g assume "page_table s' p = Some g"
    then have "page_table s p = Some g" using same(1) by simp
    from bpm_wf_table[OF wf this] have b: "in_pool s g" "page_id (frame_at s g) = p" by simp_all
    show "in_pool s' g" using b ip by simp
    show "page_id (frame_at s' g) = p" using meta[OF b(1)] b(2) by simp
  next
    fix g n assume "map_of (node_store (replacer s')) g = Some n"
    then have "map_of (node_store (replacer s)) g = Some n" using same(3) by simp
    from bpm_wf_node[OF wf this] show "in_pool s' g" using ip by simp
  next
    fix g assume "in_pool s' g"
    then have g: "in_pool s g" using ip by simp
    show "0 \<le> pin_count (frame_at s' g)" using bpm_wf_pin[OF wf g] meta[OF g] by simp
  qed
  moreover have "frames_tracked s' {}"
    unfolding frames_tracked_def
  proof (intro allI impI)
    fix g assume "in_pool s' g \<and> g \<notin> set (free_list s') \<and> g \<notin> {}"
    then have g: "in_pool s g" "g \<notin> set (free_list s)" using ip same(2) by simp_all
    from frames_trackedD[OF tr g] meta[OF g(1)] same(3)
    show "\<exists>n. map_of (node_store (replacer s')) g = Some n \<and>
            (is_evictable n \<longleftrightarrow> pin_count (frame_at s' g) = 0)" by simp
  qed
  ultimately show ?thesis by (simp add: bpm_inv_def)
qed

lemma bpm_inv_set_frame:
  assumes "bpm_inv s" "in_pool s f" "pin_count pg = pin_count (frame_at s f)"
    "page_id pg = page_id (frame_at s f)"
  shows "bpm_inv (set_frame s f pg)"
proof (rule bpm_inv_same_meta[OF assms(1)])
  fix g assume "in_pool s g"
  then show "pin_count (frame_at (set_frame s f pg) g) = pin_count (frame_at s g) \<and>
        page_id (frame_at (set_frame s f pg) g) = page_id (frame_at s g)"
    using assms(2-4) by (simp add: frame_at_set_frame)
qed simp_all

lemma bpm_inv_disk:
  "bpm_inv s \<Longrightarrow> bpm_inv (s\<lparr>disk_manager := d\<rparr>)"
  by (rule bpm_inv_same_meta) simp_all

lemma GetPage_ok:
  "bpm_inv s \<Longrightarrow> GetPage s pid = Inr (page_table s pid)"
  using bpm_wf_table[of s pid] by (auto simp: GetPage_def bpm_inv_def split: option.splits)

lemma UnpinPage_ok:
  assumes inv: "bpm_inv s"
  shows "(page_table s pid = None \<and> UnpinPage s pid d = Inr (False, s)) \<or>
         (\<exists>f. page_table s pid = Some f \<and> in_pool s f \<and> pin_count (frame_at s f) = 0 \<and>
            UnpinPage s pid d = Inr (False, set_frame s f ((frame_at s f)\<lparr>is_dirty := d\<rparr>)) \<and>
            bpm_inv (set_frame s f ((frame_at s f)\<lparr>is_dirty := d\<rparr>))) \<or>
         (\<exists>f s'. page_table s pid = Some f \<and> in_pool s f \<and> 0 < pin_count (frame_at s f) \<and>
            UnpinPage s pid d = Inr (True, s') \<and> bpm_inv s' \<and>
            pages s' = (pages s)[nat f :=
               (frame_at s f)\<lparr>is_dirty := d, pin_count := pin_count (frame_at s f) - 1\<rparr>] \<and>
            page_table s' = page_table s \<and> disk_manager s' = disk_manager s \<and>
            next_page_id s' = next_page_id s \<and> pool_size s' = pool_size s)"
proof (cases "page_table s pid")
  case None
  then show ?thesis using GetPage_ok[OF inv, of pid] by (simp add: UnpinPage_def)
next
  case (Some f)
  have wf: "bpm_wf s" and tr: "frames_tracked s {}" using inv by (simp_all add: bpm_inv_def)
  have f: "in_pool s f" "page_id (frame_at s f) = pid" using bpm_wf_table[OF wf Some] by simp_all
  have gp: "GetPage s pid = Inr (Some f)" using GetPage_ok[OF inv, of pid] Some by simp
  have pin0: "0 \<le> pin_count (frame_at s f)" by (rule bpm_wf_pin[OF wf f(1)])
  let ?pg0 = "(frame_at s f)\<lparr>is_dirty := d\<rparr>"
  let ?s0 = "set_frame s f ?pg0"
  show ?thesis
  proof (cases "pin_count (frame_at s f) \<le> 0")
    case True
    then have eq: "UnpinPage s pid d = Inr (False, ?s0)"
      using gp f(1) by (simp add: UnpinPage_def Let_def frame_at_set_frame)
    have "bpm_inv ?s0" by (rule bpm_inv_set_frame[OF inv f(1)]) simp_all
    then have "page_table s pid = Some f \<and> in_pool s f \<and> pin_count (frame_at s f) = 0 \<and>
            UnpinPage s pid d = Inr (False, ?s0) \<and> bpm_inv ?s0"
      using Some f(1) True pin0 eq by simp
    then show ?thesis by (intro disjI2 disjI1 exI[of _ f])
  next
    case False
    then have pos: "0 < pin_count (frame_at s f)" by simp
    let ?pg = "(frame_at s f)\<lparr>is_dirty := d, pin_count := pin_count (frame_at s f) - 1\<rparr>"
    let ?s1 = "set_frame s f ?pg"
    let ?s' = "if pin_count (frame_at s f) - 1 = 0
               then ?s1\<lparr>replacer := SetEvictable (replacer s) f True\<rparr> else ?s1"
    have s01: "set_frame ?s0 f ?pg = ?s1" by (simp add: set_frame_def)
    have eq: "UnpinPage s pid d = Inr (True, ?s')"
      using gp f(1) False by (simp add: UnpinPage_def Let_def frame_at_set_frame s01)
    have nfl: "f \<notin> set (free_list s)" by (rule bpm_wf_table_not_free[OF wf Some])
    have ex: "bpm_inv_except s f" by (rule bpm_inv_imp_except[OF inv f(1) nfl])
    have ex1: "bpm_inv_except ?s1 f"
    proof (rule bpm_inv_except_frame[OF ex, where pg = ?pg and pt' = "page_table s"])
      show "0 \<le> pin_count ?pg" using pos by simp
      show "\<And>p g. page_table s p = Some g \<Longrightarrow>
              (g = f \<or> page_table s p = Some g) \<and> (g = f \<longrightarrow> page_id ?pg = p)"
        using bpm_wf_table[OF wf] by auto
    qed simp_all
    from frames_trackedD[OF tr f(1) nfl] obtain n where
      n: "map_of (node_store (replacer s)) f = Some n"
         "is_evictable n \<longleftrightarrow> pin_count (frame_at s f) = 0" by blast
    have fa1: "frame_at ?s1 f = ?pg" using f(1) by (simp add: frame_at_set_frame)
    have inv': "bpm_inv ?s'"
    proof (cases "pin_count (frame_at s f) - 1 = 0")
      case True
      have rinv: "replacer_inv (replacer s)" using bpm_wf_replacer[OF wf] by simp
      note se = SetEvictable_ok[OF rinv n(1), of True]
      have ex2: "bpm_inv_except (?s1\<lparr>replacer := SetEvictable (replacer s) f True\<rparr>) f"
        by (rule bpm_inv_except_replacer[OF ex1]) (simp_all add: se)
      have "bpm_inv (?s1\<lparr>replacer := SetEvictable (replacer s) f True\<rparr>)"
      proof (rule bpm_inv_except_close[OF ex2])
        show "\<exists>m. map_of (node_store (replacer (?s1\<lparr>replacer := SetEvictable (replacer s) f True\<rparr>))) f = Some m \<and>
             (is_evictable m \<longleftrightarrow> pin_count (frame_at (?s1\<lparr>replacer := SetEvictable (replacer s) f True\<rparr>) f) = 0)"
          using se True fa1 by (intro exI[of _ "n\<lparr>is_evictable := True\<rparr>"]) simp
      qed
      then show ?thesis using True by simp
    next
      case False
      have "bpm_inv ?s1"
      proof (rule bpm_inv_except_close[OF ex1])
        show "\<exists>m. map_of (node_store (replacer ?s1)) f = Some m \<and>
             (is_evictable m \<longleftrightarrow> pin_count (frame_at ?s1 f) = 0)"
          using n False pos fa1 by (intro exI[of _ n]) simp
      qed
      then show ?thesis using False by simp
    qed
    have "pages ?s' = (pages s)[nat f := ?pg]" by (simp add: set_frame_def)
    moreover have "page_table ?s' = page_table s" "disk_manager ?s' = disk_manager s"
      "next_page_id ?s' = next_page_id s" "pool_size ?s' = pool_size s" by simp_all
    ultimately have "page_table s pid = Some f \<and> in_pool s f \<and> 0 < pin_count (frame_at s f) \<and>
            UnpinPage s pid d = Inr (True, ?s') \<and> bpm_inv ?s' \<and>
            pages ?s' = (pages s)[nat f := ?pg] \<and>
            page_table ?s' = page_table s \<and> disk_manager ?s' = disk_manager s \<and>
            next_page_id ?s' = next_page_id s \<and> pool_size ?s' = pool_size s"
      using Some f(1) pos eq inv' by (intro conjI)
    then show ?thesis by (intro disjI2 exI[of _ f] exI[of _ ?s'])
  qed
qed

lemma FlushPage_inv:
  assumes inv: "bpm_inv s"
  shows "\<exists>r s'. FlushPage s pid = Inr (r, s') \<and> bpm_inv s' \<and> length (pages s') = length (pages s)"
proof (cases "pid = INVALID_PAGE_ID \<or> pid \<ge> next_page_id s")
  case True
  then show ?thesis using inv by (auto simp: FlushPage_def)
next
  case False
  show ?thesis
  proof (cases "page_table s pid")
    case None
    then show ?thesis using inv False GetPage_ok[OF inv, of pid] by (auto simp: FlushPage_def)
  next
    case (Some f)
    have wf: "bpm_wf s" using inv by (simp add: bpm_inv_def)
    have f: "in_pool s f" using bpm_wf_table[OF wf Some] by simp
    let ?s1 = "s\<lparr>disk_manager := WritePage (disk_manager s) pid (data (frame_at s f))\<rparr>"
    let ?s' = "set_frame ?s1 f ((frame_at ?s1 f)\<lparr>is_dirty := False\<rparr>)"
    have eq: "FlushPage s pid = Inr (True, ?s')"
      using False Some GetPage_ok[OF inv, of pid] by (simp add: FlushPage_def Let_def)
    have "bpm_inv ?s1" by (rule bpm_inv_disk[OF inv])
    then have "bpm_inv ?s'" by (rule bpm_inv_set_frame) (simp_all add: f)
    then show ?thesis using eq by (auto simp: set_frame_def)
  qed
qed

lemma FlushAllPages_loop_inv:
  "bpm_inv s \<Longrightarrow> \<forall>i \<in> set xs. i < length (pages s) \<Longrightarrow>
     \<exists>s'. FlushAllPages_loop xs s = Inr s' \<and> bpm_inv s'"
proof (induction xs arbitrary: s)
  case Nil
  then show ?case by simp
next
  case (Cons i xs)
  have i: "i < length (pages s)" using Cons.prems(2) by simp
  show ?case
  proof (cases "page_id (pages s ! i) \<noteq> INVALID_PAGE_ID \<and> is_dirty (pages s ! i)")
    case True
    from FlushPage_inv[OF Cons.prems(1), of "page_id (pages s ! i)"] obtain r s1 where
      s1: "FlushPage s (page_id (pages s ! i)) = Inr (r, s1)" "bpm_inv s1"
        "length (pages s1) = length (pages s)" by blast
    have "\<forall>j \<in> set xs. j < length (pages s1)" using Cons.prems(2) s1(3) by simp
    from Cons.IH[OF s1(2) this] show ?thesis using True i s1(1) by (simp add: Let_def)
  next
    case False
    have "\<forall>j \<in> set xs. j < length (pages s)" using Cons.prems(2) by simp
    from Cons.IH[OF Cons.prems(1) this] show ?thesis using False i by (auto simp: Let_def)
  qed
qed

lemma FlushAllPages_inv:
  assumes "bpm_inv s"
  shows "\<exists>s'. FlushAllPages s = Inr s' \<and> bpm_inv s'"
proof -
  have "length (pages s) = pool_size s" using assms by (simp add: bpm_inv_def bpm_wf_def)
  then have "\<forall>i \<in> set [0..<pool_size s]. i < length (pages s)" by simp
  from FlushAllPages_loop_inv[OF assms this] show ?thesis by (simp add: FlushAllPages_def)
qed

lemma DeletePage_inv:
  assumes inv: "bpm_inv s"
  shows "\<exists>r s'. DeletePage s pid = Inr (r, s') \<and> bpm_inv s'"
proof (cases "page_table s pid")
  case None
  then show ?thesis using inv by (auto simp: DeletePage_def)
next
  case (Some f)
  have wf: "bpm_wf s" using inv by (simp add: bpm_inv_def)
  have f: "in_pool s f" "page_id (frame_at s f) = pid" using bpm_wf_table[OF wf Some] by simp_all
  show ?thesis
  proof (cases "0 < pin_count (frame_at s f)")
    case True
    then show ?thesis using inv Some f(1) by (auto simp: DeletePage_def)
  next
    case False
    let ?pg = "\<lparr>data = zero_page, page_id = INVALID_PAGE_ID, pin_count = 0, is_dirty = False\<rparr>"
    let ?pt = "(page_table s)(pid := None)"
    let ?s2 = "set_frame (s\<lparr>page_table := ?pt\<rparr>) f ?pg"
    let ?s' = "?s2\<lparr>free_list := free_list ?s2 @ [f]\<rparr>"
    have eq: "DeletePage s pid = Inr (True, ?s')"
      using Some f(1) False
      by (simp add: DeletePage_def Let_def set_frame_def frame_at_def ResetMemory_def
          Page_update_all in_pool_def)
    have nfl: "f \<notin> set (free_list s)" by (rule bpm_wf_table_not_free[OF wf Some])
    have ex: "bpm_inv_except s f" by (rule bpm_inv_imp_except[OF inv f(1) nfl])
    have nof: "\<And>p. ?pt p \<noteq> Some f"
    proof
      fix p assume a: "?pt p = Some f"
      then have "p \<noteq> pid" "page_table s p = Some f" by (auto split: if_splits)
      then show False using bpm_wf_table[OF wf, of p f] f(2) by simp
    qed
    have ex2: "bpm_inv_except ?s2 f"
    proof (rule bpm_inv_except_frame[OF ex, where pg = ?pg and pt' = ?pt])
      show "\<And>p g. ?pt p = Some g \<Longrightarrow>
              (g = f \<or> page_table s p = Some g) \<and> (g = f \<longrightarrow> page_id ?pg = p)"
      proof -
        fix p g assume a: "?pt p = Some g"
        then have "g \<noteq> f" using nof[of p] by auto
        moreover have "page_table s p = Some g" using a by (auto split: if_splits)
        ultimately show "(g = f \<or> page_table s p = Some g) \<and> (g = f \<longrightarrow> page_id ?pg = p)"
          by simp
      qed
    qed (simp_all add: set_frame_def)
    have "bpm_inv ?s'"
    proof (rule bpm_inv_except_free[OF ex2])
      show "pin_count (frame_at ?s2 f) = 0" using f(1) by (simp add: frame_at_set_frame)
      show "\<forall>p. page_table ?s2 p \<noteq> Some f" using nof by simp
    qed
    then show ?thesis using eq by blast
  qed
qed

lemma WriteData_inv:
  assumes "bpm_inv s" "in_pool s f"
  shows "\<exists>s'. WriteData s f bytes = Inr s' \<and> bpm_inv s'"
proof -
  have "bpm_inv (set_frame s f ((frame_at s f)\<lparr>data := bytes\<rparr>))"
    by (rule bpm_inv_set_frame[OF assms]) simp_all
  then show ?thesis using assms(2) by (simp add: WriteData_def)
qed

subsection \<open>Reachable states satisfy the invariant\<close>

lemma static_cast_int_upt: "n \<le> 2 ^ 31 \<Longrightarrow> map static_cast_int [0..<n] = map int [0..<n]"
  by (simp add: static_cast_int_id)

lemma bpm_inv_new:
  assumes "ps < 2 ^ 31"
  shows "bpm_inv (BufferPoolManager_new ps d replacer_k)"
proof -
  let ?s = "BufferPoolManager_new ps d replacer_k"
  have fl: "free_list ?s = map int [0..<ps]"
    using assms by (simp add: BufferPoolManager_new_def static_cast_int_upt)
  have ip: "\<And>f. in_pool ?s f \<longleftrightarrow> 0 \<le> f \<and> nat f < ps"
    by (simp add: in_pool_def BufferPoolManager_new_def)
  have fa: "\<And>f. in_pool ?s f \<Longrightarrow> frame_at ?s f = Page_new"
    by (simp add: in_pool_def frame_at_def BufferPoolManager_new_def)
  have mem: "\<And>f. f \<in> set (free_list ?s) \<longleftrightarrow> in_pool ?s f"
  proof -
    fix f
    have "f \<in> set (free_list ?s) \<longleftrightarrow> (\<exists>i < ps. f = int i)" unfolding fl by auto
    also have "\<dots> \<longleftrightarrow> 0 \<le> f \<and> nat f < ps"
      by (metis nat_int int_nat_eq of_nat_0_le_iff)
    finally show "f \<in> set (free_list ?s) \<longleftrightarrow> in_pool ?s f" using ip by simp
  qed
  have "bpm_wf ?s"
    unfolding bpm_wf_def
  proof (intro conjI ballI allI impI)
    show "pool_size ?s < 2 ^ 31" "length (pages ?s) = pool_size ?s"
      "replacer_size (replacer ?s) = pool_size ?s"
      using assms by (simp_all add: BufferPoolManager_new_def LRUKReplacer_new_def)
    show "replacer_inv (replacer ?s)" by (simp add: BufferPoolManager_new_def replacer_inv_new)
    show "distinct (free_list ?s)" unfolding fl by (simp add: distinct_map)
  next
    fix f assume "f \<in> set (free_list ?s)"
    then have f: "in_pool ?s f" using mem by simp
    show "in_pool ?s f" by (rule f)
    show "pin_count (frame_at ?s f) = 0" using fa[OF f] by (simp add: Page_new_def)
    fix p show "page_table ?s p \<noteq> Some f" by (simp add: BufferPoolManager_new_def)
  next
    fix p f assume "page_table ?s p = Some f"
    then show "in_pool ?s f" "page_id (frame_at ?s f) = p"
      by (simp_all add: BufferPoolManager_new_def)
  next
    fix f n assume "map_of (node_store (replacer ?s)) f = Some n"
    then show "in_pool ?s f" by (simp add: BufferPoolManager_new_def LRUKReplacer_new_def)
  next
    fix f assume "in_pool ?s f"
    then show "0 \<le> pin_count (frame_at ?s f)" using fa by (simp add: Page_new_def)
  qed
  moreover have "frames_tracked ?s {}" unfolding frames_tracked_def using mem by blast
  ultimately show ?thesis by (simp add: bpm_inv_def)
qed

lemma bpm_step_inv:
  assumes inv: "bpm_inv s" and ok: "\<forall>f bytes. op = OpWriteData f bytes \<longrightarrow> in_pool s f"
  shows "\<exists>s'. bpm_step s op = Inr s' \<and> bpm_inv s'"
proof (cases op)
  case OpNewPage
  from NewPage_ok[OF inv] show ?thesis unfolding OpNewPage by auto
next
  case (OpFetchPage p)
  from FetchPage_ok[OF inv, of p] show ?thesis unfolding OpFetchPage using inv by auto
next
  case (OpUnpinPage p d)
  from UnpinPage_ok[OF inv, of p d] show ?thesis unfolding OpUnpinPage using inv by auto
next
  case (OpFlushPage p)
  from FlushPage_inv[OF inv, of p] show ?thesis unfolding OpFlushPage by auto
next
  case OpFlushAllPages
  from FlushAllPages_inv[OF inv] show ?thesis unfolding OpFlushAllPages by auto
next
  case (OpDeletePage p)
  from DeletePage_inv[OF inv, of p] show ?thesis unfolding OpDeletePage by auto
next
  case (OpGuardDrop p d)
  from UnpinPage_ok[OF inv, of p d] show ?thesis unfolding OpGuardDrop using inv
    by (auto simp: GuardDrop_def)
next
  case (OpWriteData f bytes)
  then have "in_pool s f" using ok by simp
  from WriteData_inv[OF inv this, of bytes] show ?thesis unfolding OpWriteData by auto
qed

lemma bpm_step_Inr_inv:
  assumes "bpm_inv s" "bpm_step s op = Inr s'"
  shows "bpm_inv s'"
proof (cases "\<exists>f bytes. op = OpWriteData f bytes \<and> \<not> in_pool s f")
  case True
  then show ?thesis using assms(2) by (auto simp: WriteData_def)
next
  case False
  then have "\<forall>f bytes. op = OpWriteData f bytes \<longrightarrow> in_pool s f" by blast
  from bpm_step_inv[OF assms(1) this] show ?thesis using assms(2) by auto
qed

lemma reachable_inv: "reachable s \<Longrightarrow> bpm_inv s"
proof (induction rule: reachable.induct)
  case (reachable_init ps d replacer_k)
  then show ?case by (rule bpm_inv_new)
next
  case (reachable_step s op s1)
  then show ?case using bpm_step_Inr_inv by blast
qed

lemma all_frames_iff:
  assumes "length (pages s) = pool_size s"
  shows "(\<forall>f. in_pool s f \<longrightarrow> P (frame_at s f)) \<longleftrightarrow> (\<forall>i < pool_size s. P (pages s ! i))"
proof
  assume a: "\<forall>f. in_pool s f \<longrightarrow> P (frame_at s f)"
  show "\<forall>i < pool_size s. P (pages s ! i)"
  proof (intro allI impI)
    fix i assume "i < pool_size s"
    then have "in_pool s (int i)" using assms by (simp add: in_pool_def)
    then have "P (frame_at s (int i))" using a by blast
    then show "P (pages s ! i)" by (simp add: frame_at_def)
  qed
next
  assume "\<forall>i < pool_size s. P (pages s ! i)"
  then show "\<forall>f. in_pool s f \<longrightarrow> P (frame_at s f)"
    using assms by (simp add: in_pool_def frame_at_def)
qed

lemma one_deleted_step:
  "bpm_step one_unpinned_dirty (OpDeletePage 0) = Inr one_deleted"
  by (simp add: one_unpinned_dirty_def one_deleted_def bpm_defs Page_update_all)

lemma reachable_one_pinned: "reachable one_pinned"
proof -
  have "reachable (BufferPoolManager_new (Suc 0) DiskManager_new 2)"
    by (rule reachable_init) simp
  then show ?thesis using one_pinned_run by (rule reachable_step)
qed

lemma reachable_one_unpinned_dirty: "reachable one_unpinned_dirty"
  using reachable_one_pinned one_unpinned_dirty_run by (rule reachable_step)

lemma reachable_one_deleted: "reachable one_deleted"
  using reachable_one_unpinned_dirty one_deleted_step by (rule reachable_step)

text \<open>The side conditions of the theorems on single calls hold in every reachable state.\<close>

lemma reachable_resident_in_pool:
  "reachable s \<Longrightarrow> page_table s p = Some f \<Longrightarrow> in_pool s f \<and> page_id (frame_at s f) = p"
  using reachable_inv bpm_wf_table by (auto simp: bpm_inv_def)

subsection \<open>Eviction safety\<close>

text \<open>
  C1. In every state that a sequence of client calls (\<^verbatim>\<open>NewPage\<close>, \<^verbatim>\<open>FetchPage\<close>,
  \<^verbatim>\<open>UnpinPage\<close>, \<^verbatim>\<open>FlushPage\<close>, \<^verbatim>\<open>FlushAllPages\<close>, \<^verbatim>\<open>DeletePage\<close>, guard drops, writes
  to frame buffers) can reach from a new manager, \<^verbatim>\<open>NewPage\<close> and \<^verbatim>\<open>FetchPage\<close> return
  without failure, and the frame they reuse for a page that was not resident, the one
  \<^verbatim>\<open>GetAvailableFrameId\<close> chose, had pin count 0 before the call. \<^verbatim>\<open>DeletePage\<close> is
  among the calls, and it does leave the node of the freed frame in the replacer.
\<close>

theorem victim_unpinned:
  assumes "reachable s"
  shows "(\<exists>res s'. NewPage s = Inr (res, s')) \<and>
         (\<forall>pid. \<exists>res s'. FetchPage s pid = Inr (res, s')) \<and>
         (\<forall>pid f s'. NewPage s = Inr (Some (pid, f), s') \<longrightarrow>
            in_pool s f \<and> pin_count (frame_at s f) = 0) \<and>
         (\<forall>pid f s'. page_table s pid = None \<and> FetchPage s pid = Inr (Some f, s') \<longrightarrow>
            in_pool s f \<and> pin_count (frame_at s f) = 0) \<and>
         (\<forall>f s'. GetAvailableFrameId s = Inr (Some f, s') \<longrightarrow>
            in_pool s f \<and> pin_count (frame_at s f) = 0)"
proof -
  have inv: "bpm_inv s" by (rule reachable_inv[OF assms])
  have 1: "\<exists>res s'. NewPage s = Inr (res, s')" using NewPage_ok[OF inv] by blast
  have 2: "\<forall>pid. \<exists>res s'. FetchPage s pid = Inr (res, s')"
  proof
    fix pid show "\<exists>res s'. FetchPage s pid = Inr (res, s')" using FetchPage_ok[OF inv, of pid] by blast
  qed
  have 3: "\<forall>pid f s'. NewPage s = Inr (Some (pid, f), s') \<longrightarrow>
            in_pool s f \<and> pin_count (frame_at s f) = 0"
    using NewPage_ok[OF inv] by auto
  have 4: "\<forall>pid f s'. page_table s pid = None \<and> FetchPage s pid = Inr (Some f, s') \<longrightarrow>
            in_pool s f \<and> pin_count (frame_at s f) = 0"
  proof (intro allI impI)
    fix pid f s' assume a: "page_table s pid = None \<and> FetchPage s pid = Inr (Some f, s')"
    from FetchPage_ok[OF inv, of pid] a show "in_pool s f \<and> pin_count (frame_at s f) = 0"
      by auto
  qed
  have 5: "\<forall>f s'. GetAvailableFrameId s = Inr (Some f, s') \<longrightarrow>
            in_pool s f \<and> pin_count (frame_at s f) = 0"
    using GetAvailableFrameId_ok[OF inv] by auto
  show ?thesis using 1 2 3 4 5 by blast
qed

theorem victim_unpinned_witness:
  "reachable one_deleted \<and>
   map_of (node_store (replacer one_deleted)) 0 =
     Some \<lparr>history = [0], node_k = 2, fid = 0, is_evictable = True\<rparr> \<and>
   NewPage one_deleted =
     Inr (Some (1, 0),
          \<lparr>pool_size = 1,
           pages = [\<lparr>data = zero_page, page_id = 1, pin_count = 1, is_dirty = False\<rparr>],
           replacer =
             \<lparr>node_store = [(0, \<lparr>history = [0, 1], node_k = 2, fid = 0, is_evictable = False\<rparr>)],
              current_timestamp = 2, curr_size = 0, replacer_size = 1, k = 2\<rparr>,
           page_table = [1 \<mapsto> 0],
           free_list = [],
           next_page_id = 2,
           disk_manager = DiskManager_new\<rparr>) \<and>
   in_pool one_deleted 0 \<and> pin_count (frame_at one_deleted 0) = 0"
proof -
  have r: "reachable one_deleted" by (rule reachable_one_deleted)
  have n: "NewPage one_deleted =
     Inr (Some (1, 0),
          \<lparr>pool_size = 1,
           pages = [\<lparr>data = zero_page, page_id = 1, pin_count = 1, is_dirty = False\<rparr>],
           replacer =
             \<lparr>node_store = [(0, \<lparr>history = [0, 1], node_k = 2, fid = 0, is_evictable = False\<rparr>)],
              current_timestamp = 2, curr_size = 0, replacer_size = 1, k = 2\<rparr>,
           page_table = [1 \<mapsto> 0],
           free_list = [],
           next_page_id = 2,
           disk_manager = DiskManager_new\<rparr>)"
    by (simp add: one_deleted_def bpm_defs replacer_defs INVALID_PAGE_ID_def)
  have m: "map_of (node_store (replacer one_deleted)) 0 =
     Some \<lparr>history = [0], node_k = 2, fid = 0, is_evictable = True\<rparr>"
    by (simp add: one_deleted_def)
  from victim_unpinned[OF r] n have "in_pool one_deleted 0 \<and> pin_count (frame_at one_deleted 0) = 0"
    by blast
  then show ?thesis using r n m by simp
qed

subsection \<open>The counter of page ids\<close>

lemma AllocatePage_wraps:
  "AllocatePage (s\<lparr>next_page_id := 2147483647\<rparr>) =
     (2147483647, s\<lparr>next_page_id := - 2147483648\<rparr>)"
  by (simp add: AllocatePage_def int32_wrap_max)

lemma FlushPage_next_page_id:
  "FlushPage s p = Inr (r, s') \<Longrightarrow> next_page_id s' = next_page_id s"
  by (auto simp: FlushPage_def GetPage_def set_frame_def Let_def split: if_splits option.splits)

lemma FlushAllPages_loop_next_page_id:
  "FlushAllPages_loop xs s = Inr s' \<Longrightarrow> next_page_id s' = next_page_id s"
proof (induction xs arbitrary: s)
  case Nil
  then show ?case by simp
next
  case (Cons i xs)
  show ?case
  proof (cases "page_id (pages s ! i) \<noteq> INVALID_PAGE_ID \<and> is_dirty (pages s ! i)")
    case True
    with Cons.prems obtain r s1 where
      s1: "FlushPage s (page_id (pages s ! i)) = Inr (r, s1)" "FlushAllPages_loop xs s1 = Inr s'"
      by (auto simp: Let_def split: if_splits sum.splits)
    from Cons.IH[OF s1(2)] FlushPage_next_page_id[OF s1(1)] show ?thesis by simp
  next
    case False
    with Cons.prems have "FlushAllPages_loop xs s = Inr s'"
      by (auto simp: Let_def split: if_splits)
    from Cons.IH[OF this] show ?thesis .
  qed
qed

lemma DeletePage_next_page_id:
  "DeletePage s p = Inr (r, s') \<Longrightarrow> next_page_id s' = next_page_id s"
  by (auto simp: DeletePage_def set_frame_def Let_def split: if_splits option.splits)

lemma bpm_step_next_page_id:
  assumes inv: "bpm_inv s" and step: "bpm_step s op = Inr s'"
  shows "next_page_id s' = next_page_id s \<or>
         (op = OpNewPage \<and> next_page_id s' = int32_wrap (next_page_id s + 1))"
proof (cases op)
  case OpNewPage
  from NewPage_ok[OF inv] step show ?thesis unfolding OpNewPage by auto
next
  case (OpFetchPage p)
  from FetchPage_ok[OF inv, of p] step show ?thesis unfolding OpFetchPage by auto
next
  case (OpUnpinPage p d)
  from UnpinPage_ok[OF inv, of p d] step show ?thesis unfolding OpUnpinPage by auto
next
  case (OpFlushPage p)
  then show ?thesis using step FlushPage_next_page_id by (auto split: sum.splits)
next
  case OpFlushAllPages
  then show ?thesis using step FlushAllPages_loop_next_page_id by (auto simp: FlushAllPages_def)
next
  case (OpDeletePage p)
  then show ?thesis using step DeletePage_next_page_id by (auto split: sum.splits)
next
  case (OpGuardDrop p d)
  from UnpinPage_ok[OF inv, of p d] step show ?thesis unfolding OpGuardDrop
    by (auto simp: GuardDrop_def)
next
  case (OpWriteData f bytes)
  then show ?thesis using step by (auto simp: WriteData_def set_frame_def split: if_splits)
qed

text \<open>The counter of a reachable manager is a 32-bit signed number.\<close>

lemma reachable_next_page_id:
  "reachable s \<Longrightarrow> - (2 ^ 31) \<le> next_page_id s \<and> next_page_id s < 2 ^ 31"
proof (induction rule: reachable.induct)
  case (reachable_init ps d replacer_k)
  then show ?case by (simp add: BufferPoolManager_new_def)
next
  case (reachable_step s op s1)
  from bpm_step_next_page_id[OF reachable_inv[OF reachable_step(1)] reachable_step(2)]
  show ?case using reachable_step.IH int32_wrap_range[of "next_page_id s + 1"] by auto
qed

subsection \<open>\<^verbatim>\<open>NewPage\<close>\<close>

text \<open>
  C6. In every reachable state \<^verbatim>\<open>NewPage\<close> returns, and it returns \<^verbatim>\<open>nullptr\<close> exactly when
  every frame of the pool has a positive pin count. On success the page id is the old value
  of \<^verbatim>\<open>next_page_id_\<close>, which has been incremented (as the 32-bit counter it is: the
  successor of \<open>2 ^ 31 - 1\<close> is \<open>- 2 ^ 31\<close>), and the returned frame holds that id with pin
  count 1, clean, and all bytes zero.
\<close>

theorem NewPage_result:
  assumes "reachable s"
  shows "\<exists>res s'. NewPage s = Inr (res, s') \<and>
           (res = None \<longleftrightarrow> (\<forall>i < pool_size s. 0 < pin_count (pages s ! i))) \<and>
           (\<forall>pid f. res = Some (pid, f) \<longrightarrow>
              pid = next_page_id s \<and>
              next_page_id s' =
                (if next_page_id s = 2147483647 then - 2147483648 else next_page_id s + 1) \<and>
              in_pool s' f \<and> page_table s' pid = Some f \<and>
              frame_at s' f = \<lparr>data = zero_page, page_id = pid, pin_count = 1, is_dirty = False\<rparr>)"
proof -
  have inv: "bpm_inv s" by (rule reachable_inv[OF assms])
  have len: "length (pages s) = pool_size s" using inv by (simp add: bpm_inv_def bpm_wf_def)
  have range: "- (2 ^ 31) \<le> next_page_id s" "next_page_id s < 2 ^ 31"
    using reachable_next_page_id[OF assms] by simp_all
  have succ: "int32_wrap (next_page_id s + 1) =
      (if next_page_id s = 2147483647 then - 2147483648 else next_page_id s + 1)"
  proof (cases "next_page_id s = 2147483647")
    case True
    then show ?thesis by (simp add: int32_wrap_max)
  next
    case False
    then have "int32_wrap (next_page_id s + 1) = next_page_id s + 1"
      using range by (intro int32_wrap_id) simp_all
    then show ?thesis using False by simp
  qed
  note conv = all_frames_iff[OF len, of "\<lambda>pg. 0 < pin_count pg"]
  from NewPage_ok[OF inv] show ?thesis
  proof (elim disjE exE conjE)
    fix s' assume a: "NewPage s = Inr (None, s')" "\<forall>f. in_pool s f \<longrightarrow> 0 < pin_count (frame_at s f)"
    then show ?thesis using conv by simp
  next
    fix f s'
    assume a: "NewPage s = Inr (Some (next_page_id s, f), s')" "in_pool s f"
      "pin_count (frame_at s f) = 0"
      "pages s' = (pages s)[nat f :=
         \<lparr>data = zero_page, page_id = next_page_id s, pin_count = 1, is_dirty = False\<rparr>]"
      "page_table s' = ((page_table s)(page_id (frame_at s f) := None))(next_page_id s \<mapsto> f)"
      "next_page_id s' = int32_wrap (next_page_id s + 1)"
    have "\<not> (\<forall>f. in_pool s f \<longrightarrow> 0 < pin_count (frame_at s f))" using a(2,3) by force
    then have "\<not> (\<forall>i < pool_size s. 0 < pin_count (pages s ! i))" using conv by simp
    moreover have "in_pool s' f" using a(2,4) by (simp add: in_pool_def)
    moreover have "frame_at s' f =
        \<lparr>data = zero_page, page_id = next_page_id s, pin_count = 1, is_dirty = False\<rparr>"
      by (rule frame_at_list_update[OF a(2,4)])
    moreover have "next_page_id s' =
        (if next_page_id s = 2147483647 then - 2147483648 else next_page_id s + 1)"
      using a(6) succ by simp
    ultimately show ?thesis using a(1,5) by simp
  qed
qed

theorem NewPage_result_witness:
  "reachable one_pinned \<and>
   (\<exists>res s'. NewPage one_pinned = Inr (res, s') \<and>
           (res = None \<longleftrightarrow> (\<forall>i < pool_size one_pinned. 0 < pin_count (pages one_pinned ! i))) \<and>
           (\<forall>pid f. res = Some (pid, f) \<longrightarrow>
              pid = next_page_id one_pinned \<and>
              next_page_id s' =
                (if next_page_id one_pinned = 2147483647 then - 2147483648
                 else next_page_id one_pinned + 1) \<and>
              in_pool s' f \<and> page_table s' pid = Some f \<and>
              frame_at s' f = \<lparr>data = zero_page, page_id = pid, pin_count = 1, is_dirty = False\<rparr>)) \<and>
   reachable one_deleted \<and>
   (\<exists>res s'. NewPage one_deleted = Inr (res, s') \<and>
           (res = None \<longleftrightarrow> (\<forall>i < pool_size one_deleted. 0 < pin_count (pages one_deleted ! i))) \<and>
           (\<forall>pid f. res = Some (pid, f) \<longrightarrow>
              pid = next_page_id one_deleted \<and>
              next_page_id s' =
                (if next_page_id one_deleted = 2147483647 then - 2147483648
                 else next_page_id one_deleted + 1) \<and>
              in_pool s' f \<and> page_table s' pid = Some f \<and>
              frame_at s' f = \<lparr>data = zero_page, page_id = pid, pin_count = 1, is_dirty = False\<rparr>))"
  using reachable_one_pinned reachable_one_deleted
    NewPage_result[OF reachable_one_pinned] NewPage_result[OF reachable_one_deleted]
  by blast

subsection \<open>The round trip of a page\<close>

lemma zero_page_not_one: "zero_page \<noteq> [1]"
proof
  assume "zero_page = [1]"
  then have "length zero_page = length [1 :: byte]" by simp
  then show False by (simp add: zero_page_def BUSTUB_PAGE_SIZE_def)
qed

text \<open>
  C4, as stated, at a concrete run of a pool with one frame. \<^verbatim>\<open>NewPage\<close> yields page 0 in
  frame 0; the client writes the byte 1 and calls \<^verbatim>\<open>UnpinPage(0, true)\<close>. Then
  \<^verbatim>\<open>FetchPage(0)\<close>, \<^verbatim>\<open>UnpinPage(0, false)\<close>, \<^verbatim>\<open>NewPage\<close>, \<^verbatim>\<open>UnpinPage(1, false)\<close> all succeed;
  the second \<^verbatim>\<open>NewPage\<close> evicts page 0 without writing it back, because the successful
  \<^verbatim>\<open>UnpinPage(0, false)\<close> has assigned \<open>false\<close> to the dirty flag. The final \<^verbatim>\<open>FetchPage(0)\<close>
  succeeds and returns a frame of zero bytes.
\<close>

theorem round_trip_counterexample:
  "bpm_trace (BufferPoolManager_new 1 DiskManager_new 2)
     [OpNewPage, OpWriteData 0 [1], OpUnpinPage 0 True,
      OpFetchPage 0, OpUnpinPage 0 False, OpNewPage, OpUnpinPage 1 False,
      OpFetchPage 0]
     = Inr ([RNewPage (Some (0, 0)), RUnit, RBool True,
             RFetchPage (Some 0), RBool True, RNewPage (Some (1, 0)), RBool True,
             RFetchPage (Some 0)],
            lost_update_final) \<and>
   data (frame_at lost_update_final 0) = zero_page \<and>
   zero_page \<noteq> [1]"
  by (simp add: lost_update_final_def BufferPoolManager_new_def Page_new_def bpm_defs replacer_defs
      INVALID_PAGE_ID_def DiskManager_new_def zero_page_not_one)

lemma holds_page_cong:
  "pages s' = pages s \<Longrightarrow> page_table s' = page_table s \<Longrightarrow>
   disk_manager s' = disk_manager s \<Longrightarrow> holds_page p B s' = holds_page p B s"
  by (simp add: holds_page_def in_pool_def frame_at_def split: option.split)

lemma holds_pageD:
  assumes "holds_page p B s"
  shows "\<And>g. in_pool s g \<Longrightarrow> page_id (frame_at s g) = p \<Longrightarrow> page_table s p = Some g"
    and "\<And>g. page_table s p = Some g \<Longrightarrow>
           data (frame_at s g) = B \<and> (is_dirty (frame_at s g) \<or> disk_pages (disk_manager s) p = B)"
    and "page_table s p = None \<Longrightarrow> disk_pages (disk_manager s) p = B"
  using assms unfolding holds_page_def by (auto split: option.splits)

lemma holds_pageI:
  assumes "\<And>g. in_pool s g \<Longrightarrow> page_id (frame_at s g) = p \<Longrightarrow> page_table s p = Some g"
    and "\<And>g. page_table s p = Some g \<Longrightarrow>
           data (frame_at s g) = B \<and> (is_dirty (frame_at s g) \<or> disk_pages (disk_manager s) p = B)"
    and "page_table s p = None \<Longrightarrow> disk_pages (disk_manager s) p = B"
  shows "holds_page p B s"
  using assms unfolding holds_page_def by (auto split: option.splits)

text \<open>A write-back of a victim does not take the bytes \<open>B\<close> of page \<open>p\<close> off the disk.\<close>

lemma write_back_keeps_disk:
  assumes h: "holds_page p B s" and f: "in_pool s f"
    and dm: "disk_manager s' =
              (if is_dirty (frame_at s f)
               then WritePage (disk_manager s) (page_id (frame_at s f)) (data (frame_at s f))
               else disk_manager s)"
    and d: "disk_pages (disk_manager s) p = B"
  shows "disk_pages (disk_manager s') p = B"
proof (cases "is_dirty (frame_at s f) \<and> page_id (frame_at s f) = p")
  case True
  then have "page_table s p = Some f" using holds_pageD(1)[OF h f] by simp
  then have "data (frame_at s f) = B" using holds_pageD(2)[OF h] by simp
  then show ?thesis using dm True by (simp add: WritePage_def)
next
  case False
  then show ?thesis using dm d by (auto simp: WritePage_def)
qed

lemma holds_page_install:
  assumes h: "holds_page p B s" and wf: "bpm_wf s" and f: "in_pool s f"
    and pg: "pages s' = (pages s)[nat f := \<lparr>data = X, page_id = q, pin_count = c, is_dirty = False\<rparr>]"
    and pt: "page_table s' = ((page_table s)(page_id (frame_at s f) := None))(q \<mapsto> f)"
    and dm: "disk_manager s' =
              (if is_dirty (frame_at s f)
               then WritePage (disk_manager s) (page_id (frame_at s f)) (data (frame_at s f))
               else disk_manager s)"
    and q: "q = p \<Longrightarrow> page_table s p = None \<and> X = disk_pages (disk_manager s') p"
  shows "holds_page p B s'"
proof -
  let ?old = "page_id (frame_at s f)"
  note hd = holds_pageD[OF h]
  have ip: "\<And>g. in_pool s' g = in_pool s g" using pg by (simp add: in_pool_def)
  have fa: "\<And>g. in_pool s g \<Longrightarrow> frame_at s' g =
      (if g = f then \<lparr>data = X, page_id = q, pin_count = c, is_dirty = False\<rparr> else frame_at s g)"
    using pg f by (auto simp: in_pool_def frame_at_def)
  have dk: "?old \<noteq> p \<Longrightarrow> disk_pages (disk_manager s') p = disk_pages (disk_manager s) p"
    using dm by (simp add: WritePage_def)
  show ?thesis
  proof (cases "?old = p")
    case True
    have ptf: "page_table s p = Some f" using hd(1)[OF f True] .
    then have qp: "q \<noteq> p" using q by auto
    have B: "data (frame_at s f) = B" "is_dirty (frame_at s f) \<or> disk_pages (disk_manager s) p = B"
      using hd(2)[OF ptf] by simp_all
    have d': "disk_pages (disk_manager s') p = B"
      using dm B True by (auto simp: WritePage_def)
    have none: "page_table s' p = None" using pt True qp by simp
    show ?thesis
    proof (rule holds_pageI)
      fix g assume g: "in_pool s' g" "page_id (frame_at s' g) = p"
      then have gi: "in_pool s g" using ip by simp
      have "g \<noteq> f" using g(2) fa[OF gi] qp by auto
      then have "page_id (frame_at s g) = p" using g(2) fa[OF gi] by simp
      then have "page_table s p = Some g" using hd(1)[OF gi] by simp
      then show "page_table s' p = Some g" using ptf \<open>g \<noteq> f\<close> by simp
    next
      fix g assume "page_table s' p = Some g"
      then show "data (frame_at s' g) = B \<and>
          (is_dirty (frame_at s' g) \<or> disk_pages (disk_manager s') p = B)" using none by simp
    next
      show "disk_pages (disk_manager s') p = B" by (rule d')
    qed
  next
    case False
    have d': "disk_pages (disk_manager s') p = disk_pages (disk_manager s) p" by (rule dk[OF False])
    show ?thesis
    proof (cases "q = p")
      case True
      have none: "page_table s p = None" and X: "X = disk_pages (disk_manager s') p"
        using q[OF True] by simp_all
      have XB: "X = B" using X d' hd(3)[OF none] by simp
      have ptf: "page_table s' p = Some f" using pt True by simp
      show ?thesis
      proof (rule holds_pageI)
        fix g assume g: "in_pool s' g" "page_id (frame_at s' g) = p"
        then have gi: "in_pool s g" using ip by simp
        have "g = f"
        proof (rule ccontr)
          assume "g \<noteq> f"
          then have "page_id (frame_at s g) = p" using g(2) fa[OF gi] by simp
          then show False using hd(1)[OF gi] none by simp
        qed
        then show "page_table s' p = Some g" using ptf by simp
      next
        fix g assume "page_table s' p = Some g"
        then have "g = f" using ptf by simp
        then show "data (frame_at s' g) = B \<and>
            (is_dirty (frame_at s' g) \<or> disk_pages (disk_manager s') p = B)"
          using fa[OF f] XB X by simp
      next
        assume "page_table s' p = None"
        then show "disk_pages (disk_manager s') p = B" using ptf by simp
      qed
    next
      case qp: False
      have pteq: "page_table s' p = page_table s p" using pt False qp by simp
      show ?thesis
      proof (rule holds_pageI)
        fix g assume g: "in_pool s' g" "page_id (frame_at s' g) = p"
        then have gi: "in_pool s g" using ip by simp
        have "g \<noteq> f" using g(2) fa[OF gi] qp by auto
        then have "page_id (frame_at s g) = p" using g(2) fa[OF gi] by simp
        then show "page_table s' p = Some g" using hd(1)[OF gi] pteq by simp
      next
        fix g assume "page_table s' p = Some g"
        then have a: "page_table s p = Some g" using pteq by simp
        have gi: "in_pool s g" "page_id (frame_at s g) = p" using bpm_wf_table[OF wf a] by simp_all
        have "g \<noteq> f" using gi(2) False by auto
        then have "frame_at s' g = frame_at s g" using fa[OF gi(1)] by simp
        then show "data (frame_at s' g) = B \<and>
            (is_dirty (frame_at s' g) \<or> disk_pages (disk_manager s') p = B)"
          using hd(2)[OF a] d' by simp
      next
        assume "page_table s' p = None"
        then show "disk_pages (disk_manager s') p = B" using pteq hd(3) d' by simp
      qed
    qed
  qed
qed

lemma holds_page_update:
  assumes h: "holds_page p B s" and wf: "bpm_wf s" and f: "in_pool s f"
    and pg: "pages s' = (pages s)[nat f := pg']" "page_id pg' = page_id (frame_at s f)"
      "data pg' = data (frame_at s f)"
      "page_id (frame_at s f) = p \<Longrightarrow> is_dirty pg' \<or> disk_pages (disk_manager s) p = B"
    and same: "page_table s' = page_table s" "disk_manager s' = disk_manager s"
  shows "holds_page p B s'"
proof -
  note hd = holds_pageD[OF h]
  have ip: "\<And>g. in_pool s' g = in_pool s g" using pg(1) by (simp add: in_pool_def)
  have fa: "\<And>g. in_pool s g \<Longrightarrow> frame_at s' g = (if g = f then pg' else frame_at s g)"
    using pg(1) f by (auto simp: in_pool_def frame_at_def)
  have pid: "\<And>g. in_pool s g \<Longrightarrow> page_id (frame_at s' g) = page_id (frame_at s g)"
    using fa pg(2) by simp
  show ?thesis
  proof (rule holds_pageI)
    fix g assume g: "in_pool s' g" "page_id (frame_at s' g) = p"
    then have gi: "in_pool s g" using ip by simp
    then show "page_table s' p = Some g" using hd(1)[OF gi] g(2) pid[OF gi] same(1) by simp
  next
    fix g assume "page_table s' p = Some g"
    then have a: "page_table s p = Some g" using same(1) by simp
    have gi: "in_pool s g" "page_id (frame_at s g) = p" using bpm_wf_table[OF wf a] by simp_all
    show "data (frame_at s' g) = B \<and>
        (is_dirty (frame_at s' g) \<or> disk_pages (disk_manager s') p = B)"
    proof (cases "g = f")
      case True
      then show ?thesis using fa[OF gi(1)] pg(3,4) gi(2) hd(2)[OF a] same(2) by auto
    next
      case False
      then show ?thesis using fa[OF gi(1)] hd(2)[OF a] same(2) by simp
    qed
  next
    assume "page_table s' p = None"
    then show "disk_pages (disk_manager s') p = B" using same hd(3) by simp
  qed
qed

text \<open>
  One call of the round trip. The bytes of page \<open>p\<close> stay safe if the call is not
  \<^verbatim>\<open>UnpinPage(p, false)\<close> while the disk does not have them, and if \<^verbatim>\<open>NewPage\<close> does not
  allocate the id \<open>p\<close> again; once on disk, the bytes stay there.
\<close>

lemma round_trip_step:
  assumes inv: "bpm_inv s" and h: "holds_page p B s" and op: "pool_op op"
    and safe: "op = OpUnpinPage p False \<Longrightarrow> disk_pages (disk_manager s) p = B"
    and fresh: "op = OpNewPage \<Longrightarrow> next_page_id s \<noteq> p"
  shows "\<exists>s'. bpm_step s op = Inr s' \<and> bpm_inv s' \<and> holds_page p B s' \<and>
           (disk_pages (disk_manager s) p = B \<longrightarrow> disk_pages (disk_manager s') p = B)"
proof -
  have wf: "bpm_wf s" using inv by (simp add: bpm_inv_def)
  note hd = holds_pageD[OF h]
  show ?thesis
  proof (cases op)
    case OpNewPage
    from NewPage_ok[OF inv] show ?thesis
    proof (elim disjE exE conjE)
      fix s' assume a: "NewPage s = Inr (None, s')" "bpm_inv s'" "pages s' = pages s"
        "page_table s' = page_table s" "disk_manager s' = disk_manager s"
      have "holds_page p B s'" using holds_page_cong[OF a(3-5)] h by simp
      then show ?thesis using a(1,2,5) OpNewPage by simp
    next
      fix f s'
      assume a: "NewPage s = Inr (Some (next_page_id s, f), s')" "bpm_inv s'" "in_pool s f"
        "pages s' = (pages s)[nat f :=
           \<lparr>data = zero_page, page_id = next_page_id s, pin_count = 1, is_dirty = False\<rparr>]"
        "page_table s' = ((page_table s)(page_id (frame_at s f) := None))(next_page_id s \<mapsto> f)"
        "disk_manager s' =
              (if is_dirty (frame_at s f)
               then WritePage (disk_manager s) (page_id (frame_at s f)) (data (frame_at s f))
               else disk_manager s)"
      have "holds_page p B s'"
      proof (rule holds_page_install[OF h wf a(3) a(4) a(5) a(6)])
        show "next_page_id s = p \<Longrightarrow>
            page_table s p = None \<and> zero_page = disk_pages (disk_manager s') p"
          using fresh[OF OpNewPage] by simp
      qed
      moreover have "disk_pages (disk_manager s) p = B \<longrightarrow> disk_pages (disk_manager s') p = B"
        using write_back_keeps_disk[OF h a(3) a(6)] by blast
      ultimately show ?thesis using a(1,2) OpNewPage by simp
    qed
  next
    case (OpFetchPage q)
    from FetchPage_ok[OF inv, of q] show ?thesis
    proof (elim disjE exE conjE)
      assume "q = INVALID_PAGE_ID" "FetchPage s q = Inr (None, s)"
      then show ?thesis using inv h OpFetchPage by simp
    next
      fix f s'
      assume a: "page_table s q = Some f" "FetchPage s q = Inr (Some f, s')" "bpm_inv s'"
        "in_pool s f"
        "pages s' = (pages s)[nat f :=
           (frame_at s f)\<lparr>is_dirty := True, pin_count := pin_count (frame_at s f) + 1\<rparr>]"
        "page_table s' = page_table s" "disk_manager s' = disk_manager s"
      have "holds_page p B s'"
        by (rule holds_page_update[OF h wf a(4) a(5) _ _ _ a(6) a(7)]) simp_all
      then show ?thesis using a(2,3,7) OpFetchPage by simp
    next
      fix s' assume a: "FetchPage s q = Inr (None, s')" "bpm_inv s'" "pages s' = pages s"
        "page_table s' = page_table s" "disk_manager s' = disk_manager s"
      have "holds_page p B s'" using holds_page_cong[OF a(3-5)] h by simp
      then show ?thesis using a(1,2,5) OpFetchPage by simp
    next
      fix f s'
      assume a: "page_table s q = None" "FetchPage s q = Inr (Some f, s')" "bpm_inv s'"
        "in_pool s f"
        "disk_manager s' =
              (if is_dirty (frame_at s f)
               then WritePage (disk_manager s) (page_id (frame_at s f)) (data (frame_at s f))
               else disk_manager s)"
        "pages s' = (pages s)[nat f :=
           \<lparr>data = ReadPage (disk_manager s') q, page_id = q, pin_count = 1, is_dirty = False\<rparr>]"
        "page_table s' = ((page_table s)(page_id (frame_at s f) := None))(q \<mapsto> f)"
      have "holds_page p B s'"
      proof (rule holds_page_install[OF h wf a(4) a(6) a(7) a(5)])
        show "q = p \<Longrightarrow>
            page_table s p = None \<and> ReadPage (disk_manager s') q = disk_pages (disk_manager s') p"
          using a(1) by (simp add: ReadPage_def)
      qed
      moreover have "disk_pages (disk_manager s) p = B \<longrightarrow> disk_pages (disk_manager s') p = B"
        using write_back_keeps_disk[OF h a(4) a(5)] by blast
      ultimately show ?thesis using a(2,3) OpFetchPage by simp
    qed
  next
    case (OpUnpinPage q d)
    have qd: "q = p \<Longrightarrow> d \<or> disk_pages (disk_manager s) p = B"
      using safe OpUnpinPage by auto
    from UnpinPage_ok[OF inv, of q d] show ?thesis
    proof (elim disjE exE conjE)
      assume "page_table s q = None" "UnpinPage s q d = Inr (False, s)"
      then show ?thesis using inv h OpUnpinPage by simp
    next
      fix f
      let ?s' = "set_frame s f ((frame_at s f)\<lparr>is_dirty := d\<rparr>)"
      assume a: "page_table s q = Some f" "in_pool s f"
        "UnpinPage s q d = Inr (False, ?s')" "bpm_inv ?s'"
      have pq: "page_id (frame_at s f) = q" using bpm_wf_table[OF wf a(1)] by simp
      have "holds_page p B ?s'"
      proof (rule holds_page_update[OF h wf a(2), where pg' = "(frame_at s f)\<lparr>is_dirty := d\<rparr>"])
        show "page_id (frame_at s f) = p \<Longrightarrow>
            is_dirty ((frame_at s f)\<lparr>is_dirty := d\<rparr>) \<or> disk_pages (disk_manager s) p = B"
          using pq qd by auto
      qed (simp_all add: set_frame_def)
      then show ?thesis using a(3,4) OpUnpinPage by simp
    next
      fix f s'
      assume a: "page_table s q = Some f" "in_pool s f" "UnpinPage s q d = Inr (True, s')"
        "bpm_inv s'"
        "pages s' = (pages s)[nat f :=
           (frame_at s f)\<lparr>is_dirty := d, pin_count := pin_count (frame_at s f) - 1\<rparr>]"
        "page_table s' = page_table s" "disk_manager s' = disk_manager s"
      have pq: "page_id (frame_at s f) = q" using bpm_wf_table[OF wf a(1)] by simp
      have "holds_page p B s'"
      proof (rule holds_page_update[OF h wf a(2) a(5) _ _ _ a(6) a(7)])
        show "page_id (frame_at s f) = p \<Longrightarrow>
            is_dirty ((frame_at s f)\<lparr>is_dirty := d, pin_count := pin_count (frame_at s f) - 1\<rparr>) \<or>
            disk_pages (disk_manager s) p = B"
          using pq qd by auto
      qed simp_all
      then show ?thesis using a(3,4,7) OpUnpinPage by simp
    qed
  qed (use op in simp_all)
qed

subsection \<open>Runs in which the page is dirty when it is evicted\<close>

lemma bpm_step_call:
  "bpm_step s op = (case bpm_call s op of Inl e \<Rightarrow> Inl e | Inr (res, s1) \<Rightarrow> Inr s1)"
  by (cases op) (auto simp: GuardDrop_def split: sum.splits)

lemma holds_page_held: "holds_page p B s \<Longrightarrow> page_held p B s"
  unfolding holds_page_def page_held_def by (auto split: option.splits)

lemma page_held_cong:
  "pages s' = pages s \<Longrightarrow> page_table s' = page_table s \<Longrightarrow>
   disk_manager s' = disk_manager s \<Longrightarrow> page_held p B s' = page_held p B s"
  by (simp add: page_held_def in_pool_def frame_at_def split: option.split)

lemma page_heldD:
  assumes "page_held p B s"
  shows "\<And>g. in_pool s g \<Longrightarrow> page_id (frame_at s g) = p \<Longrightarrow> page_table s p = Some g"
    and "\<And>g. page_table s p = Some g \<Longrightarrow> data (frame_at s g) = B"
    and "page_table s p = None \<Longrightarrow> disk_pages (disk_manager s) p = B"
  using assms unfolding page_held_def by (auto split: option.splits)

lemma page_heldI:
  assumes "\<And>g. in_pool s g \<Longrightarrow> page_id (frame_at s g) = p \<Longrightarrow> page_table s p = Some g"
    and "\<And>g. page_table s p = Some g \<Longrightarrow> data (frame_at s g) = B"
    and "page_table s p = None \<Longrightarrow> disk_pages (disk_manager s) p = B"
  shows "page_held p B s"
  using assms unfolding page_held_def by (auto split: option.splits)

lemma page_held_install:
  assumes h: "page_held p B s" and wf: "bpm_wf s" and f: "in_pool s f"
    and pg: "pages s' = (pages s)[nat f := \<lparr>data = X, page_id = q, pin_count = c, is_dirty = False\<rparr>]"
    and pt: "page_table s' = ((page_table s)(page_id (frame_at s f) := None))(q \<mapsto> f)"
    and dm: "disk_manager s' =
              (if is_dirty (frame_at s f)
               then WritePage (disk_manager s) (page_id (frame_at s f)) (data (frame_at s f))
               else disk_manager s)"
    and q: "q = p \<Longrightarrow> page_table s p = None \<and> X = disk_pages (disk_manager s') p"
    and ev: "page_id (frame_at s f) = p \<Longrightarrow>
               is_dirty (frame_at s f) \<or> disk_pages (disk_manager s) p = B"
  shows "page_held p B s'"
proof -
  let ?old = "page_id (frame_at s f)"
  note hd = page_heldD[OF h]
  have ip: "\<And>g. in_pool s' g = in_pool s g" using pg by (simp add: in_pool_def)
  have fa: "\<And>g. in_pool s g \<Longrightarrow> frame_at s' g =
      (if g = f then \<lparr>data = X, page_id = q, pin_count = c, is_dirty = False\<rparr> else frame_at s g)"
    using pg f by (auto simp: in_pool_def frame_at_def)
  have dk: "?old \<noteq> p \<Longrightarrow> disk_pages (disk_manager s') p = disk_pages (disk_manager s) p"
    using dm by (simp add: WritePage_def)
  show ?thesis
  proof (cases "?old = p")
    case True
    have ptf: "page_table s p = Some f" using hd(1)[OF f True] .
    then have qp: "q \<noteq> p" using q by auto
    have B: "data (frame_at s f) = B" using hd(2)[OF ptf] .
    have d': "disk_pages (disk_manager s') p = B"
      using dm B True ev[OF True] by (auto simp: WritePage_def)
    have none: "page_table s' p = None" using pt True qp by simp
    show ?thesis
    proof (rule page_heldI)
      fix g assume g: "in_pool s' g" "page_id (frame_at s' g) = p"
      then have gi: "in_pool s g" using ip by simp
      have "g \<noteq> f" using g(2) fa[OF gi] qp by auto
      then have "page_id (frame_at s g) = p" using g(2) fa[OF gi] by simp
      then have "page_table s p = Some g" using hd(1)[OF gi] by simp
      then show "page_table s' p = Some g" using ptf \<open>g \<noteq> f\<close> by simp
    next
      fix g assume "page_table s' p = Some g"
      then show "data (frame_at s' g) = B" using none by simp
    next
      show "disk_pages (disk_manager s') p = B" by (rule d')
    qed
  next
    case False
    have d': "disk_pages (disk_manager s') p = disk_pages (disk_manager s) p" by (rule dk[OF False])
    show ?thesis
    proof (cases "q = p")
      case True
      have none: "page_table s p = None" and X: "X = disk_pages (disk_manager s') p"
        using q[OF True] by simp_all
      have XB: "X = B" using X d' hd(3)[OF none] by simp
      have ptf: "page_table s' p = Some f" using pt True by simp
      show ?thesis
      proof (rule page_heldI)
        fix g assume g: "in_pool s' g" "page_id (frame_at s' g) = p"
        then have gi: "in_pool s g" using ip by simp
        have "g = f"
        proof (rule ccontr)
          assume "g \<noteq> f"
          then have "page_id (frame_at s g) = p" using g(2) fa[OF gi] by simp
          then show False using hd(1)[OF gi] none by simp
        qed
        then show "page_table s' p = Some g" using ptf by simp
      next
        fix g assume "page_table s' p = Some g"
        then have "g = f" using ptf by simp
        then show "data (frame_at s' g) = B" using fa[OF f] XB by simp
      next
        assume "page_table s' p = None"
        then show "disk_pages (disk_manager s') p = B" using ptf by simp
      qed
    next
      case qp: False
      have pteq: "page_table s' p = page_table s p" using pt False qp by simp
      show ?thesis
      proof (rule page_heldI)
        fix g assume g: "in_pool s' g" "page_id (frame_at s' g) = p"
        then have gi: "in_pool s g" using ip by simp
        have "g \<noteq> f" using g(2) fa[OF gi] qp by auto
        then have "page_id (frame_at s g) = p" using g(2) fa[OF gi] by simp
        then show "page_table s' p = Some g" using hd(1)[OF gi] pteq by simp
      next
        fix g assume "page_table s' p = Some g"
        then have a: "page_table s p = Some g" using pteq by simp
        have gi: "in_pool s g" "page_id (frame_at s g) = p" using bpm_wf_table[OF wf a] by simp_all
        have "g \<noteq> f" using gi(2) False by auto
        then have "frame_at s' g = frame_at s g" using fa[OF gi(1)] by simp
        then show "data (frame_at s' g) = B" using hd(2)[OF a] by simp
      next
        assume "page_table s' p = None"
        then show "disk_pages (disk_manager s') p = B" using pteq hd(3) d' by simp
      qed
    qed
  qed
qed

lemma page_held_update:
  assumes h: "page_held p B s" and wf: "bpm_wf s" and f: "in_pool s f"
    and pg: "pages s' = (pages s)[nat f := pg']" "page_id pg' = page_id (frame_at s f)"
      "data pg' = data (frame_at s f)"
    and same: "page_table s' = page_table s" "disk_manager s' = disk_manager s"
  shows "page_held p B s'"
proof -
  note hd = page_heldD[OF h]
  have ip: "\<And>g. in_pool s' g = in_pool s g" using pg(1) by (simp add: in_pool_def)
  have fa: "\<And>g. in_pool s g \<Longrightarrow> frame_at s' g = (if g = f then pg' else frame_at s g)"
    using pg(1) f by (auto simp: in_pool_def frame_at_def)
  have pid: "\<And>g. in_pool s g \<Longrightarrow> page_id (frame_at s' g) = page_id (frame_at s g)"
    using fa pg(2) by simp
  show ?thesis
  proof (rule page_heldI)
    fix g assume g: "in_pool s' g" "page_id (frame_at s' g) = p"
    then have gi: "in_pool s g" using ip by simp
    then show "page_table s' p = Some g" using hd(1)[OF gi] g(2) pid[OF gi] same(1) by simp
  next
    fix g assume "page_table s' p = Some g"
    then have a: "page_table s p = Some g" using same(1) by simp
    have gi: "in_pool s g" using bpm_wf_table[OF wf a] by simp
    show "data (frame_at s' g) = B" using fa[OF gi] pg(3) hd(2)[OF a] by auto
  next
    assume "page_table s' p = None"
    then show "disk_pages (disk_manager s') p = B" using same hd(3) by simp
  qed
qed

text \<open>
  One call of the round trip. The bytes of page \<open>p\<close> stay in the frame of the page or on disk
  if the call does not evict that frame while it is clean and the disk does not have the
  bytes, and if the call is not a \<^verbatim>\<open>NewPage\<close> that yields the id \<open>p\<close> again.
\<close>

lemma page_held_step:
  assumes inv: "bpm_inv s" and h: "page_held p B s" and op: "pool_op op"
    and call: "bpm_call s op = Inr (res, s1)"
    and fresh: "\<And>f. res \<noteq> RNewPage (Some (p, f))"
    and ev: "\<And>g. page_table s p = Some g \<Longrightarrow> page_table s1 p = None \<Longrightarrow>
               is_dirty (frame_at s g) \<or> disk_pages (disk_manager s) p = B"
  shows "bpm_inv s1 \<and> page_held p B s1"
proof -
  have wf: "bpm_wf s" using inv by (simp add: bpm_inv_def)
  note hd = page_heldD[OF h]
  show ?thesis
  proof (cases op)
    case OpNewPage
    from NewPage_ok[OF inv] show ?thesis
    proof (elim disjE exE conjE)
      fix s' assume a: "NewPage s = Inr (None, s')" "bpm_inv s'" "pages s' = pages s"
        "page_table s' = page_table s" "disk_manager s' = disk_manager s"
      have s1: "s1 = s'" using call a(1) OpNewPage by simp
      have "page_held p B s'" using page_held_cong[OF a(3-5)] h by simp
      then show ?thesis using a(2) s1 by simp
    next
      fix f s'
      assume a: "NewPage s = Inr (Some (next_page_id s, f), s')" "bpm_inv s'" "in_pool s f"
        "pages s' = (pages s)[nat f :=
           \<lparr>data = zero_page, page_id = next_page_id s, pin_count = 1, is_dirty = False\<rparr>]"
        "page_table s' = ((page_table s)(page_id (frame_at s f) := None))(next_page_id s \<mapsto> f)"
        "disk_manager s' =
              (if is_dirty (frame_at s f)
               then WritePage (disk_manager s) (page_id (frame_at s f)) (data (frame_at s f))
               else disk_manager s)"
      have s1: "s1 = s'" and res: "res = RNewPage (Some (next_page_id s, f))"
        using call a(1) OpNewPage by simp_all
      have np: "next_page_id s \<noteq> p" using fresh[of f] res by auto
      have "page_held p B s'"
      proof (rule page_held_install[OF h wf a(3) a(4) a(5) a(6)])
        show "next_page_id s = p \<Longrightarrow>
            page_table s p = None \<and> zero_page = disk_pages (disk_manager s') p"
          using np by simp
        assume old: "page_id (frame_at s f) = p"
        then have "page_table s p = Some f" using hd(1)[OF a(3)] by simp
        moreover have "page_table s1 p = None" using s1 a(5) old np by simp
        ultimately show "is_dirty (frame_at s f) \<or> disk_pages (disk_manager s) p = B"
          by (rule ev)
      qed
      then show ?thesis using a(2) s1 by simp
    qed
  next
    case (OpFetchPage q)
    from FetchPage_ok[OF inv, of q] show ?thesis
    proof (elim disjE exE conjE)
      assume "q = INVALID_PAGE_ID" "FetchPage s q = Inr (None, s)"
      then have "s1 = s" using call OpFetchPage by simp
      then show ?thesis using inv h by simp
    next
      fix f s'
      assume a: "page_table s q = Some f" "FetchPage s q = Inr (Some f, s')" "bpm_inv s'"
        "in_pool s f"
        "pages s' = (pages s)[nat f :=
           (frame_at s f)\<lparr>is_dirty := True, pin_count := pin_count (frame_at s f) + 1\<rparr>]"
        "page_table s' = page_table s" "disk_manager s' = disk_manager s"
      have s1: "s1 = s'" using call a(2) OpFetchPage by simp
      have "page_held p B s'"
        by (rule page_held_update[OF h wf a(4) a(5) _ _ a(6) a(7)]) simp_all
      then show ?thesis using a(3) s1 by simp
    next
      fix s' assume a: "FetchPage s q = Inr (None, s')" "bpm_inv s'" "pages s' = pages s"
        "page_table s' = page_table s" "disk_manager s' = disk_manager s"
      have s1: "s1 = s'" using call a(1) OpFetchPage by simp
      have "page_held p B s'" using page_held_cong[OF a(3-5)] h by simp
      then show ?thesis using a(2) s1 by simp
    next
      fix f s'
      assume a: "page_table s q = None" "FetchPage s q = Inr (Some f, s')" "bpm_inv s'"
        "in_pool s f"
        "disk_manager s' =
              (if is_dirty (frame_at s f)
               then WritePage (disk_manager s) (page_id (frame_at s f)) (data (frame_at s f))
               else disk_manager s)"
        "pages s' = (pages s)[nat f :=
           \<lparr>data = ReadPage (disk_manager s') q, page_id = q, pin_count = 1, is_dirty = False\<rparr>]"
        "page_table s' = ((page_table s)(page_id (frame_at s f) := None))(q \<mapsto> f)"
      have s1: "s1 = s'" using call a(2) OpFetchPage by simp
      have "page_held p B s'"
      proof (rule page_held_install[OF h wf a(4) a(6) a(7) a(5)])
        show "q = p \<Longrightarrow>
            page_table s p = None \<and> ReadPage (disk_manager s') q = disk_pages (disk_manager s') p"
          using a(1) by (simp add: ReadPage_def)
        assume old: "page_id (frame_at s f) = p"
        then have pf: "page_table s p = Some f" using hd(1)[OF a(4)] by simp
        then have "q \<noteq> p" using a(1) by auto
        then have "page_table s1 p = None" using s1 a(7) old by simp
        with pf show "is_dirty (frame_at s f) \<or> disk_pages (disk_manager s) p = B"
          by (rule ev)
      qed
      then show ?thesis using a(3) s1 by simp
    qed
  next
    case (OpUnpinPage q d)
    from UnpinPage_ok[OF inv, of q d] show ?thesis
    proof (elim disjE exE conjE)
      assume "page_table s q = None" "UnpinPage s q d = Inr (False, s)"
      then have "s1 = s" using call OpUnpinPage by simp
      then show ?thesis using inv h by simp
    next
      fix f
      let ?s' = "set_frame s f ((frame_at s f)\<lparr>is_dirty := d\<rparr>)"
      assume a: "page_table s q = Some f" "in_pool s f"
        "UnpinPage s q d = Inr (False, ?s')" "bpm_inv ?s'"
      have s1: "s1 = ?s'" using call a(3) OpUnpinPage by simp
      have "page_held p B ?s'"
        by (rule page_held_update[OF h wf a(2), where pg' = "(frame_at s f)\<lparr>is_dirty := d\<rparr>"])
          (simp_all add: set_frame_def)
      then show ?thesis using a(4) s1 by simp
    next
      fix f s'
      assume a: "page_table s q = Some f" "in_pool s f" "UnpinPage s q d = Inr (True, s')"
        "bpm_inv s'"
        "pages s' = (pages s)[nat f :=
           (frame_at s f)\<lparr>is_dirty := d, pin_count := pin_count (frame_at s f) - 1\<rparr>]"
        "page_table s' = page_table s" "disk_manager s' = disk_manager s"
      have s1: "s1 = s'" using call a(3) OpUnpinPage by simp
      have "page_held p B s'"
        by (rule page_held_update[OF h wf a(2) a(5) _ _ a(6) a(7)]) simp_all
      then show ?thesis using a(4) s1 by simp
    qed
  qed (use op in simp_all)
qed

lemma safe_run_held:
  assumes "bpm_inv s" and "page_held p B s" and "list_all pool_op ops" and "safe_run p B s ops"
  shows "\<exists>s'. bpm_run s ops = Inr s' \<and> bpm_inv s' \<and> page_held p B s'"
  using assms
proof (induction ops arbitrary: s)
  case Nil
  then show ?case by simp
next
  case (Cons op ops)
  have op: "pool_op op" and ops: "list_all pool_op ops" using Cons.prems(3) by simp_all
  from Cons.prems(4) obtain res s1 where
    call: "bpm_call s op = Inr (res, s1)"
    and fresh: "case res of RNewPage (Some (q, f)) \<Rightarrow> q \<noteq> p | _ \<Rightarrow> True"
    and ev: "case page_table s p of
               Some g \<Rightarrow> page_table s1 p = None \<longrightarrow>
                 is_dirty (frame_at s g) \<or> disk_pages (disk_manager s) p = B
             | None \<Rightarrow> True"
    and rest: "safe_run p B s1 ops"
    by (auto split: sum.splits)
  have fresh': "\<And>f. res \<noteq> RNewPage (Some (p, f))" using fresh by auto
  have ev': "\<And>g. page_table s p = Some g \<Longrightarrow> page_table s1 p = None \<Longrightarrow>
               is_dirty (frame_at s g) \<or> disk_pages (disk_manager s) p = B"
    using ev by simp
  from page_held_step[OF Cons.prems(1,2) op call fresh' ev']
  have s1: "bpm_inv s1" "page_held p B s1" by simp_all
  have step: "bpm_step s op = Inr s1" using call by (simp add: bpm_step_call)
  from Cons.IH[OF s1 ops rest] show ?case using step by simp
qed

lemma page_held_fetch:
  assumes inv: "bpm_inv s" and h: "page_held p B s" and fe: "FetchPage s p = Inr (Some f, s')"
  shows "data (frame_at s' f) = B"
proof -
  have call: "bpm_call s (OpFetchPage p) = Inr (RFetchPage (Some f), s')" using fe by simp
  have pt: "page_table s' p = Some f"
    using FetchPage_ok[OF inv, of p] fe by auto
  have "bpm_inv s' \<and> page_held p B s'"
    by (rule page_held_step[OF inv h _ call]) (simp_all add: pt)
  then show ?thesis using page_heldD(2)[OF _ pt] by blast
qed

subsection \<open>The page id is not allocated twice\<close>

lemma not_allocated_less: "not_allocated p (Suc n) c \<Longrightarrow> not_allocated p n c"
proof (induction n arbitrary: c)
  case 0
  then show ?case by simp
next
  case (Suc n)
  then show ?case by simp
qed

lemma not_allocated_wrap:
  "not_allocated p n (int32_wrap c) \<longleftrightarrow> (\<forall>i < n. int32_wrap (c + int i) \<noteq> p)"
proof (induction n arbitrary: c)
  case 0
  then show ?case by simp
next
  case (Suc n)
  have "not_allocated p (Suc n) (int32_wrap c) \<longleftrightarrow>
      int32_wrap c \<noteq> p \<and> not_allocated p n (int32_wrap (c + 1))"
    by (simp add: int32_wrap_add)
  also have "\<dots> \<longleftrightarrow> int32_wrap c \<noteq> p \<and> (\<forall>i < n. int32_wrap (c + 1 + int i) \<noteq> p)"
    using Suc.IH[of "c + 1"] by simp
  also have "\<dots> \<longleftrightarrow> (\<forall>i < Suc n. int32_wrap (c + int i) \<noteq> p)"
  proof
    assume a: "int32_wrap c \<noteq> p \<and> (\<forall>i < n. int32_wrap (c + 1 + int i) \<noteq> p)"
    show "\<forall>i < Suc n. int32_wrap (c + int i) \<noteq> p"
    proof (intro allI impI)
      fix i assume i: "i < Suc n"
      show "int32_wrap (c + int i) \<noteq> p"
      proof (cases i)
        case 0
        then show ?thesis using a by simp
      next
        case (Suc j)
        then have "j < n" using i by simp
        then have "int32_wrap (c + 1 + int j) \<noteq> p" using a by blast
        moreover have "c + int i = c + 1 + int j" using Suc by simp
        ultimately show ?thesis by metis
      qed
    qed
  next
    assume a: "\<forall>i < Suc n. int32_wrap (c + int i) \<noteq> p"
    have "int32_wrap c \<noteq> p" using a[rule_format, of 0] by simp
    moreover have "\<forall>i < n. int32_wrap (c + 1 + int i) \<noteq> p"
    proof (intro allI impI)
      fix i assume "i < n"
      then have "Suc i < Suc n" by simp
      then have "int32_wrap (c + int (Suc i)) \<noteq> p" using a by blast
      moreover have "c + int (Suc i) = c + 1 + int i" by simp
      ultimately show "int32_wrap (c + 1 + int i) \<noteq> p" by metis
    qed
    ultimately show "int32_wrap c \<noteq> p \<and> (\<forall>i < n. int32_wrap (c + 1 + int i) \<noteq> p)" by simp
  qed
  finally show ?case .
qed

text \<open>
  After page \<open>p\<close> has been allocated, the counter comes back to \<open>p\<close> only with the
  \<open>2 ^ 32\<close>-th allocation that follows.
\<close>

lemma not_allocated_after:
  assumes p: "- (2 ^ 31) \<le> p" "p < 2 ^ 31" and n: "n < 2 ^ 32"
  shows "not_allocated p n (int32_wrap (p + 1))"
  unfolding not_allocated_wrap
proof (intro allI impI notI)
  fix i assume i: "i < n" and eq: "int32_wrap (p + 1 + int i) = p"
  let ?M = "4294967296 :: int"
  have j: "0 < 1 + int i" "1 + int i < ?M" using i n by simp_all
  have q: "0 \<le> p + 2147483648" "p + 2147483648 < ?M" using p by simp_all
  have "(p + 1 + int i + 2147483648) mod ?M = p + 2147483648"
    using eq by (simp add: int32_wrap_eq)
  also have "\<dots> = (p + 2147483648) mod ?M" using q by simp
  finally have "?M dvd (p + 1 + int i + 2147483648) - (p + 2147483648)"
    by (simp only: mod_eq_dvd_iff)
  then have "?M dvd 1 + int i" by simp
  then show False using j zdvd_not_zless by blast
qed

lemma count_NewPage_simps [simp]:
  "count_NewPage [] = 0"
  "count_NewPage (OpNewPage # ops) = Suc (count_NewPage ops)"
  "op \<noteq> OpNewPage \<Longrightarrow> count_NewPage (op # ops) = count_NewPage ops"
  "count_NewPage (xs @ ys) = count_NewPage xs + count_NewPage ys"
  by (simp_all add: count_NewPage_def)

lemma bpm_run_append:
  "bpm_run s (xs @ ys) = (case bpm_run s xs of Inl e \<Rightarrow> Inl e | Inr s1 \<Rightarrow> bpm_run s1 ys)"
  by (induction xs arbitrary: s) (auto split: sum.splits)

lemma safe_run_append:
  "bpm_run s xs = Inr s1 \<Longrightarrow>
     safe_run p B s (xs @ ys) \<longleftrightarrow> safe_run p B s xs \<and> safe_run p B s1 ys"
proof (induction xs arbitrary: s)
  case Nil
  then show ?case by simp
next
  case (Cons x xs)
  from Cons.prems obtain s' where s': "bpm_step s x = Inr s'" "bpm_run s' xs = Inr s1"
    by (auto split: sum.splits)
  then obtain res where call: "bpm_call s x = Inr (res, s')"
    by (auto simp: bpm_step_call split: sum.splits)
  show ?case using Cons.IH[OF s'(2)] call by auto
qed

lemma bpm_call_NewPage:
  assumes "bpm_inv s" and "bpm_call s op = Inr (RNewPage (Some (q, f)), s1)"
  shows "op = OpNewPage \<and> q = next_page_id s"
proof (cases op)
  case OpNewPage
  then show ?thesis using assms(2) NewPage_ok[OF assms(1)] by auto
qed (use assms(2) in \<open>auto split: sum.splits\<close>)

text \<open>
  A run of the calls of the round trip. If, as long as the disk does not have the bytes,
  the run makes no call \<^verbatim>\<open>UnpinPage(p, false)\<close>, and if the counter does not come back to
  \<open>p\<close>, then the run does not fail, the bytes stay safe, and the frame of the page is dirty
  whenever the run evicts it before the bytes are on disk.
\<close>

lemma round_trip_run_inv:
  assumes "bpm_inv s" and "holds_page p B s" and "list_all pool_op ops"
    and "disk_pages (disk_manager s) p = B \<or> list_all (round_trip_op p) ops"
    and "not_allocated p (count_NewPage ops + m) (next_page_id s)"
  shows "\<exists>s'. bpm_run s ops = Inr s' \<and> bpm_inv s' \<and> holds_page p B s' \<and>
           (disk_pages (disk_manager s) p = B \<longrightarrow> disk_pages (disk_manager s') p = B) \<and>
           not_allocated p m (next_page_id s') \<and> safe_run p B s ops"
  using assms
proof (induction ops arbitrary: s)
  case Nil
  then show ?case by simp
next
  case (Cons op ops)
  have op: "pool_op op" and ops: "list_all pool_op ops" using Cons.prems(3) by simp_all
  have safe: "op = OpUnpinPage p False \<Longrightarrow> disk_pages (disk_manager s) p = B"
    using Cons.prems(4) by auto
  have fresh: "op = OpNewPage \<Longrightarrow> next_page_id s \<noteq> p"
    using Cons.prems(5) by auto
  from round_trip_step[OF Cons.prems(1,2) op safe fresh] obtain s1 where
    s1: "bpm_step s op = Inr s1" "bpm_inv s1" "holds_page p B s1"
      "disk_pages (disk_manager s) p = B \<longrightarrow> disk_pages (disk_manager s1) p = B"
    by blast
  from s1(1) obtain res where call: "bpm_call s op = Inr (res, s1)"
    by (auto simp: bpm_step_call split: sum.splits)
  have fresh': "case res of RNewPage (Some (q, f)) \<Rightarrow> q \<noteq> p | _ \<Rightarrow> True"
  proof (cases res)
    case (RNewPage r)
    show ?thesis
    proof (cases r)
      case None
      then show ?thesis using RNewPage by simp
    next
      case (Some qf)
      obtain q f where qf: "qf = (q, f)" by (cases qf)
      from bpm_call_NewPage[OF Cons.prems(1) call[unfolded RNewPage Some qf]] fresh
      show ?thesis using RNewPage Some qf by simp
    qed
  qed simp_all
  have ev: "case page_table s p of
               Some g \<Rightarrow> page_table s1 p = None \<longrightarrow>
                 is_dirty (frame_at s g) \<or> disk_pages (disk_manager s) p = B
             | None \<Rightarrow> True"
    using holds_pageD(2)[OF Cons.prems(2)] by (auto split: option.splits)
  have phase: "disk_pages (disk_manager s1) p = B \<or> list_all (round_trip_op p) ops"
    using Cons.prems(4) s1(4) by auto
  have budget: "not_allocated p (count_NewPage ops + m) (next_page_id s1)"
  proof (cases "op = OpNewPage")
    case True
    then have b: "not_allocated p (Suc (count_NewPage ops + m)) (next_page_id s)"
      using Cons.prems(5) by simp
    from bpm_step_next_page_id[OF Cons.prems(1) s1(1)]
    show ?thesis
    proof
      assume "next_page_id s1 = next_page_id s"
      then show ?thesis using not_allocated_less[OF b] by simp
    next
      assume "op = OpNewPage \<and> next_page_id s1 = int32_wrap (next_page_id s + 1)"
      then show ?thesis using b by simp
    qed
  next
    case False
    then have "next_page_id s1 = next_page_id s"
      using bpm_step_next_page_id[OF Cons.prems(1) s1(1)] by simp
    then show ?thesis using Cons.prems(5) False by simp
  qed
  from Cons.IH[OF s1(2,3) ops phase budget] obtain s' where
    s': "bpm_run s1 ops = Inr s'" "bpm_inv s'" "holds_page p B s'"
      "disk_pages (disk_manager s1) p = B \<longrightarrow> disk_pages (disk_manager s') p = B"
      "not_allocated p m (next_page_id s')" "safe_run p B s1 ops"
    by blast
  have "safe_run p B s (op # ops)" using call fresh' ev s'(6) by simp
  then show ?case using s1(1,4) s'(1-5) by simp
qed

lemma round_trip_start:
  assumes inv0: "bpm_inv s0"
    and absent: "next_page_id s0 \<notin> page_id ` set (pages s0)"
    and new: "NewPage s0 = Inr (Some (p, f), s1)"
    and wr: "WriteData s1 f B = Inr s2"
    and un: "UnpinPage s2 p True = Inr (r, s3)"
  shows "bpm_inv s3 \<and> holds_page p B s3 \<and> p = next_page_id s0 \<and>
         next_page_id s3 = int32_wrap (p + 1)"
proof -
  from NewPage_ok[OF inv0] new have
    p: "p = next_page_id s0" and inv1: "bpm_inv s1" and f0: "in_pool s0 f"
    and pg1: "pages s1 = (pages s0)[nat f :=
        \<lparr>data = zero_page, page_id = p, pin_count = 1, is_dirty = False\<rparr>]"
    and pt1: "page_table s1 = ((page_table s0)(page_id (frame_at s0 f) := None))(p \<mapsto> f)"
    and nx1: "next_page_id s1 = int32_wrap (p + 1)"
    by auto
  have f1: "in_pool s1 f" using f0 pg1 by (simp add: in_pool_def)
  have fa1: "frame_at s1 f = \<lparr>data = zero_page, page_id = p, pin_count = 1, is_dirty = False\<rparr>"
    by (rule frame_at_list_update[OF f0 pg1])
  have s2: "s2 = set_frame s1 f ((frame_at s1 f)\<lparr>data := B\<rparr>)"
    using wr f1 by (simp add: WriteData_def)
  have inv2: "bpm_inv s2" using WriteData_inv[OF inv1 f1, of B] wr by simp
  have f2: "in_pool s2 f" using f1 s2 by simp
  have fa2: "frame_at s2 f = \<lparr>data = B, page_id = p, pin_count = 1, is_dirty = False\<rparr>"
    using s2 f1 fa1 by (simp add: frame_at_set_frame)
  have pt2: "page_table s2 p = Some f" using s2 pt1 by simp
  have pg2: "pages s2 = (pages s0)[nat f :=
        \<lparr>data = B, page_id = p, pin_count = 1, is_dirty = False\<rparr>]"
    using s2 pg1 fa1 by (simp add: set_frame_def)
  from UnpinPage_ok[OF inv2, of p True] un pt2 fa2 have
    inv3: "bpm_inv s3"
    and pg3: "pages s3 = (pages s2)[nat f :=
        (frame_at s2 f)\<lparr>is_dirty := True, pin_count := pin_count (frame_at s2 f) - 1\<rparr>]"
    and pt3: "page_table s3 = page_table s2" and nx3: "next_page_id s3 = next_page_id s2"
    by auto
  have pg3': "pages s3 = (pages s0)[nat f :=
        \<lparr>data = B, page_id = p, pin_count = 0, is_dirty = True\<rparr>]"
    using pg3 pg2 fa2 by simp
  have ip3: "\<And>g. in_pool s3 g = in_pool s0 g" using pg3' by (simp add: in_pool_def)
  have fa3: "\<And>g. in_pool s0 g \<Longrightarrow> frame_at s3 g =
      (if g = f then \<lparr>data = B, page_id = p, pin_count = 0, is_dirty = True\<rparr> else frame_at s0 g)"
    using pg3' f0 by (auto simp: in_pool_def frame_at_def)
  have only: "\<And>g. in_pool s3 g \<Longrightarrow> page_id (frame_at s3 g) = p \<Longrightarrow> g = f"
  proof (rule ccontr)
    fix g assume g: "in_pool s3 g" "page_id (frame_at s3 g) = p" "g \<noteq> f"
    then have gi: "in_pool s0 g" using ip3 by simp
    then have "page_id (frame_at s0 g) = p" using g(2,3) fa3 by simp
    moreover have "frame_at s0 g \<in> set (pages s0)" using gi by (simp add: in_pool_def frame_at_def)
    ultimately show False using absent p by force
  qed
  have "holds_page p B s3"
  proof (rule holds_pageI)
    fix g assume "in_pool s3 g" "page_id (frame_at s3 g) = p"
    then show "page_table s3 p = Some g" using only pt3 pt2 by simp
  next
    fix g assume "page_table s3 p = Some g"
    then have "g = f" using pt3 pt2 by simp
    then show "data (frame_at s3 g) = B \<and>
        (is_dirty (frame_at s3 g) \<or> disk_pages (disk_manager s3) p = B)"
      using fa3[OF f0] by simp
  next
    assume "page_table s3 p = None"
    then show "disk_pages (disk_manager s3) p = B" using pt3 pt2 by simp
  qed
  moreover have "next_page_id s3 = int32_wrap (p + 1)" using nx3 s2 nx1 by simp
  ultimately show ?thesis using inv3 p by simp
qed

lemma safe_run_round_trip:
  assumes "bpm_inv s3" and "holds_page p B s3" and "list_all pool_op ops"
    and "safe_run p B s3 ops"
  shows "\<exists>s4. bpm_run s3 ops = Inr s4 \<and>
           (\<forall>f' s5. FetchPage s4 p = Inr (Some f', s5) \<longrightarrow> data (frame_at s5 f') = B)"
proof -
  have "page_held p B s3" by (rule holds_page_held[OF assms(2)])
  from safe_run_held[OF assms(1) this assms(3,4)] obtain s4 where
    s4: "bpm_run s3 ops = Inr s4" "bpm_inv s4" "page_held p B s4" by blast
  have "\<forall>f' s5. FetchPage s4 p = Inr (Some f', s5) \<longrightarrow> data (frame_at s5 f') = B"
    using page_held_fetch[OF s4(2,3)] by blast
  then show ?thesis using s4(1) by blast
qed

text \<open>
  The condition on the evictions holds in particular for a sequence that makes no call
  \<^verbatim>\<open>UnpinPage(p, false)\<close> before the frame of page \<open>p\<close> has been evicted: the calls \<open>ops1\<close>
  without \<^verbatim>\<open>UnpinPage(p, false)\<close>, after which the page is not resident, and then any calls
  \<open>ops2\<close>, \<^verbatim>\<open>UnpinPage(p, false)\<close> among them; also for a sequence without any call
  \<^verbatim>\<open>UnpinPage(p, false)\<close>, whether or not it evicts the page. The condition on the page ids
  holds for a sequence with fewer than \<open>2 ^ 32\<close> calls of \<^verbatim>\<open>NewPage\<close>.
\<close>

lemma no_clean_unpin_safe_run:
  assumes s3: "bpm_inv s3" "holds_page p B s3"
    and range: "- (2 ^ 31) \<le> p" "p < 2 ^ 31" and nx: "next_page_id s3 = int32_wrap (p + 1)"
    and ban: "list_all (round_trip_op p) ops1"
    and run1: "bpm_run s3 ops1 = Inr s4"
    and evicted: "ops2 = [] \<or> page_table s4 p = None"
    and pool2: "list_all pool_op ops2"
    and count: "count_NewPage (ops1 @ ops2) < 2 ^ 32"
  shows "safe_run p B s3 (ops1 @ ops2)"
proof -
  have "not_allocated p (count_NewPage (ops1 @ ops2)) (int32_wrap (p + 1))"
    by (rule not_allocated_after[OF range count])
  then have budget: "not_allocated p (count_NewPage ops1 + count_NewPage ops2) (next_page_id s3)"
    using nx by simp
  have pool1: "list_all pool_op ops1"
  proof -
    have "\<And>op. round_trip_op p op \<Longrightarrow> pool_op op"
    proof -
      fix op assume "round_trip_op p op"
      then show "pool_op op" by (cases op) simp_all
    qed
    then show ?thesis using ban by (auto simp: list_all_iff)
  qed
  from round_trip_run_inv[OF s3 pool1 _ budget] ban run1 have
    s4: "bpm_inv s4" "holds_page p B s4" "not_allocated p (count_NewPage ops2) (next_page_id s4)"
      "safe_run p B s3 ops1"
    by auto
  have "safe_run p B s4 ops2"
  proof (cases "ops2 = []")
    case True
    then show ?thesis by simp
  next
    case False
    then have "page_table s4 p = None" using evicted by simp
    then have disk: "disk_pages (disk_manager s4) p = B" by (rule holds_pageD(3)[OF s4(2)])
    have "not_allocated p (count_NewPage ops2 + 0) (next_page_id s4)" using s4(3) by simp
    from round_trip_run_inv[OF s4(1,2) pool2 _ this] disk show ?thesis by blast
  qed
  then show ?thesis using s4(4) safe_run_append[OF run1] by simp
qed

text \<open>
  C4, amended. Let \<^verbatim>\<open>NewPage\<close> in a reachable state yield page \<open>p\<close> in frame \<open>f\<close>, where no
  frame of the pool already holds a page with the id \<open>p\<close>; let the client write the bytes \<open>B\<close>
  into the frame and call \<^verbatim>\<open>UnpinPage(p, true)\<close>. Let a sequence of \<^verbatim>\<open>NewPage\<close>,
  \<^verbatim>\<open>FetchPage\<close> and \<^verbatim>\<open>UnpinPage\<close> calls follow.

  \<^item> If no \<^verbatim>\<open>NewPage\<close> of the sequence yields the id \<open>p\<close> again, and if the frame of page \<open>p\<close>
    is dirty, or the bytes are on disk already, each time a call of the sequence evicts it,
    then the sequence runs without failure, and a successful \<^verbatim>\<open>FetchPage(p)\<close> after it
    returns a frame with the bytes \<open>B\<close>.

  \<^item> Both conditions hold if the sequence has fewer than \<open>2 ^ 32\<close> calls of \<^verbatim>\<open>NewPage\<close> and
    makes no call \<^verbatim>\<open>UnpinPage(p, false)\<close> before the frame of page \<open>p\<close> has been evicted:
    it consists of calls \<open>ops1\<close> without \<^verbatim>\<open>UnpinPage(p, false)\<close>, after which the page is
    not resident, and then of any calls \<open>ops2\<close>. They also hold if the sequence makes no call
    \<^verbatim>\<open>UnpinPage(p, false)\<close> at all (no \<open>ops2\<close>), whether or not it evicts the page.
\<close>

theorem round_trip:
  assumes "reachable s0"
    and "next_page_id s0 \<notin> page_id ` set (pages s0)"
    and "NewPage s0 = Inr (Some (p, f), s1)"
    and "WriteData s1 f B = Inr s2"
    and "UnpinPage s2 p True = Inr (r, s3)"
    and "list_all pool_op ops"
  shows "(safe_run p B s3 ops \<longrightarrow>
            (\<exists>s4. bpm_run s3 ops = Inr s4 \<and>
               (\<forall>f' s5. FetchPage s4 p = Inr (Some f', s5) \<longrightarrow> data (frame_at s5 f') = B))) \<and>
         (\<forall>ops1 ops2 s4.
            ops = ops1 @ ops2 \<and> list_all (round_trip_op p) ops1 \<and> bpm_run s3 ops1 = Inr s4 \<and>
            (ops2 = [] \<or> page_table s4 p = None) \<and> count_NewPage ops < 2 ^ 32
            \<longrightarrow> safe_run p B s3 ops)"
proof -
  have inv0: "bpm_inv s0" by (rule reachable_inv[OF assms(1)])
  from round_trip_start[OF inv0 assms(2-5)] have s3: "bpm_inv s3" "holds_page p B s3"
    and p: "p = next_page_id s0" and nx: "next_page_id s3 = int32_wrap (p + 1)" by blast+
  have range: "- (2 ^ 31) \<le> p" "p < 2 ^ 31" using reachable_next_page_id[OF assms(1)] p by simp_all
  have 1: "safe_run p B s3 ops \<longrightarrow>
            (\<exists>s4. bpm_run s3 ops = Inr s4 \<and>
               (\<forall>f' s5. FetchPage s4 p = Inr (Some f', s5) \<longrightarrow> data (frame_at s5 f') = B))"
    using safe_run_round_trip[OF s3 assms(6)] by blast
  have 2: "\<forall>ops1 ops2 s4.
            ops = ops1 @ ops2 \<and> list_all (round_trip_op p) ops1 \<and> bpm_run s3 ops1 = Inr s4 \<and>
            (ops2 = [] \<or> page_table s4 p = None) \<and> count_NewPage ops < 2 ^ 32
            \<longrightarrow> safe_run p B s3 ops"
  proof (intro allI impI, elim conjE)
    fix ops1 ops2 s4
    assume a: "ops = ops1 @ ops2" "list_all (round_trip_op p) ops1" "bpm_run s3 ops1 = Inr s4"
      "ops2 = [] \<or> page_table s4 p = None" "count_NewPage ops < 2 ^ 32"
    have pool2: "list_all pool_op ops2" using assms(6) a(1) by simp
    have count: "count_NewPage (ops1 @ ops2) < 2 ^ 32" using a(1,5) by simp
    show "safe_run p B s3 ops"
      unfolding a(1)
      by (rule no_clean_unpin_safe_run[OF s3 range nx a(2,3,4) pool2 count])
  qed
  show ?thesis using 1 2 by (rule conjI)
qed

text \<open>
  A pool of one frame. \<^verbatim>\<open>NewPage\<close> yields page 0; the client writes the byte 1 and calls
  \<^verbatim>\<open>UnpinPage(0, true)\<close>. \<^verbatim>\<open>NewPage\<close> (page 1) evicts page 0, which is dirty, and writes it
  back. Then \<^verbatim>\<open>UnpinPage(1, false)\<close>, \<^verbatim>\<open>FetchPage(0)\<close>, which reads the page back,
  \<^verbatim>\<open>UnpinPage(0, false)\<close>, \<^verbatim>\<open>NewPage\<close> (page 2), which evicts the clean page 0 while the disk
  has its bytes, and \<^verbatim>\<open>UnpinPage(2, false)\<close>. The final \<^verbatim>\<open>FetchPage(0)\<close> returns the byte 1.
\<close>

theorem round_trip_witness:
  "reachable (BufferPoolManager_new 1 DiskManager_new 2) \<and>
   next_page_id (BufferPoolManager_new 1 DiskManager_new 2)
     \<notin> page_id ` set (pages (BufferPoolManager_new 1 DiskManager_new 2)) \<and>
   NewPage (BufferPoolManager_new 1 DiskManager_new 2) = Inr (Some (0, 0), one_pinned) \<and>
   WriteData one_pinned 0 [1] =
     Inr (one_pinned\<lparr>pages := [\<lparr>data = [1], page_id = 0, pin_count = 1, is_dirty = False\<rparr>]\<rparr>) \<and>
   UnpinPage (one_pinned\<lparr>pages := [\<lparr>data = [1], page_id = 0, pin_count = 1, is_dirty = False\<rparr>]\<rparr>) 0 True =
     Inr (True,
          one_unpinned_dirty\<lparr>pages := [\<lparr>data = [1], page_id = 0, pin_count = 0, is_dirty = True\<rparr>]\<rparr>) \<and>
   list_all pool_op
     [OpNewPage, OpUnpinPage 1 False, OpFetchPage 0, OpUnpinPage 0 False, OpNewPage,
      OpUnpinPage 2 False] \<and>
   [OpNewPage, OpUnpinPage 1 False, OpFetchPage 0, OpUnpinPage 0 False, OpNewPage,
      OpUnpinPage 2 False] =
     [OpNewPage] @
     [OpUnpinPage 1 False, OpFetchPage 0, OpUnpinPage 0 False, OpNewPage, OpUnpinPage 2 False] \<and>
   list_all (round_trip_op 0) [OpNewPage] \<and>
   (\<exists>s. bpm_run
        (one_unpinned_dirty\<lparr>pages := [\<lparr>data = [1], page_id = 0, pin_count = 0, is_dirty = True\<rparr>]\<rparr>)
        [OpNewPage] = Inr s \<and> page_table s 0 = None) \<and>
   count_NewPage
     [OpNewPage, OpUnpinPage 1 False, OpFetchPage 0, OpUnpinPage 0 False, OpNewPage,
      OpUnpinPage 2 False] < 2 ^ 32 \<and>
   safe_run 0 [1]
     (one_unpinned_dirty\<lparr>pages := [\<lparr>data = [1], page_id = 0, pin_count = 0, is_dirty = True\<rparr>]\<rparr>)
     [OpNewPage, OpUnpinPage 1 False, OpFetchPage 0, OpUnpinPage 0 False, OpNewPage,
      OpUnpinPage 2 False] \<and>
   (\<exists>s4 s5.
      bpm_trace
        (one_unpinned_dirty\<lparr>pages := [\<lparr>data = [1], page_id = 0, pin_count = 0, is_dirty = True\<rparr>]\<rparr>)
        [OpNewPage, OpUnpinPage 1 False, OpFetchPage 0, OpUnpinPage 0 False, OpNewPage,
         OpUnpinPage 2 False]
      = Inr ([RNewPage (Some (1, 0)), RBool True, RFetchPage (Some 0), RBool True,
              RNewPage (Some (2, 0)), RBool True], s4) \<and>
      bpm_run
        (one_unpinned_dirty\<lparr>pages := [\<lparr>data = [1], page_id = 0, pin_count = 0, is_dirty = True\<rparr>]\<rparr>)
        [OpNewPage, OpUnpinPage 1 False, OpFetchPage 0, OpUnpinPage 0 False, OpNewPage,
         OpUnpinPage 2 False]
      = Inr s4 \<and>
      FetchPage s4 0 = Inr (Some 0, s5) \<and> data (frame_at s5 0) = [1])"
proof -
  let ?s0 = "BufferPoolManager_new 1 DiskManager_new 2"
  let ?s2 = "one_pinned\<lparr>pages := [\<lparr>data = [1], page_id = 0, pin_count = 1, is_dirty = False\<rparr>]\<rparr>"
  let ?s3 = "one_unpinned_dirty\<lparr>pages := [\<lparr>data = [1], page_id = 0, pin_count = 0, is_dirty = True\<rparr>]\<rparr>"
  let ?ops2 = "[OpUnpinPage 1 False, OpFetchPage 0, OpUnpinPage 0 False, OpNewPage,
      OpUnpinPage 2 False]"
  let ?ops = "[OpNewPage, OpUnpinPage 1 False, OpFetchPage 0, OpUnpinPage 0 False, OpNewPage,
      OpUnpinPage 2 False]"
  have r: "reachable ?s0" by (rule reachable_init) simp
  have a: "next_page_id ?s0 \<notin> page_id ` set (pages ?s0)"
    by (simp add: BufferPoolManager_new_def Page_new_def INVALID_PAGE_ID_def)
  have n: "NewPage ?s0 = Inr (Some (0, 0), one_pinned)"
    by (simp add: one_pinned_def BufferPoolManager_new_def Page_new_def bpm_defs replacer_defs
        INVALID_PAGE_ID_def)
  have w: "WriteData one_pinned 0 [1] = Inr ?s2"
    by (simp add: one_pinned_def bpm_defs)
  have u: "UnpinPage ?s2 0 True = Inr (True, ?s3)"
    by (simp add: one_pinned_def one_unpinned_dirty_def bpm_defs replacer_defs)
  have l: "list_all pool_op ?ops" by simp
  have sp: "?ops = [OpNewPage] @ ?ops2" by simp
  have l1: "list_all (round_trip_op 0) [OpNewPage]" by simp
  have c: "count_NewPage ?ops < 2 ^ 32" by simp
  have e1: "\<exists>s. bpm_run ?s3 [OpNewPage] = Inr s \<and> page_table s 0 = None"
    by (simp add: one_unpinned_dirty_def bpm_defs replacer_defs
        INVALID_PAGE_ID_def DiskManager_new_def)
  then obtain s where s: "bpm_run ?s3 [OpNewPage] = Inr s" "page_table s 0 = None" by blast
  have e: "\<exists>s4 s5. bpm_trace ?s3 ?ops
      = Inr ([RNewPage (Some (1, 0)), RBool True, RFetchPage (Some 0), RBool True,
              RNewPage (Some (2, 0)), RBool True], s4) \<and>
      bpm_run ?s3 ?ops = Inr s4 \<and> FetchPage s4 0 = Inr (Some 0, s5)"
    by (simp add: one_unpinned_dirty_def bpm_defs replacer_defs
        INVALID_PAGE_ID_def DiskManager_new_def)
  then obtain s4 s5 where
    s4: "bpm_trace ?s3 ?ops
      = Inr ([RNewPage (Some (1, 0)), RBool True, RFetchPage (Some 0), RBool True,
              RNewPage (Some (2, 0)), RBool True], s4)"
      "bpm_run ?s3 ?ops = Inr s4" and s5: "FetchPage s4 0 = Inr (Some 0, s5)"
    by blast
  note rt = round_trip[OF r a n w u l]
  have d: "?ops2 = [] \<or> page_table s 0 = None" using s(2) by (rule disjI2)
  from rt have "?ops = [OpNewPage] @ ?ops2 \<and> list_all (round_trip_op 0) [OpNewPage] \<and>
      bpm_run ?s3 [OpNewPage] = Inr s \<and> (?ops2 = [] \<or> page_table s 0 = None) \<and>
      count_NewPage ?ops < 2 ^ 32 \<longrightarrow> safe_run 0 [1] ?s3 ?ops"
    by blast
  then have sr: "safe_run 0 [1] ?s3 ?ops" using sp l1 s(1) d c by blast
  from rt sr obtain s4' where s4': "bpm_run ?s3 ?ops = Inr s4'"
    "\<forall>f' s5. FetchPage s4' 0 = Inr (Some f', s5) \<longrightarrow> data (frame_at s5 f') = [1]"
    by blast
  have "s4' = s4" using s4'(1) s4(2) by simp
  then have "data (frame_at s5 0) = [1]" using s4'(2) s5 by blast
  then show ?thesis using r a n w u l sp l1 e1 c sr s4 s5 by blast
qed

text \<open>
  The run of the counterexample does not satisfy the condition: after \<^verbatim>\<open>FetchPage(0)\<close> and
  \<^verbatim>\<open>UnpinPage(0, false)\<close> the frame of page 0 is clean and the disk does not have the byte
  when \<^verbatim>\<open>NewPage\<close> evicts the frame.
\<close>

lemma lost_update_not_safe:
  "\<not> safe_run 0 [1]
     (one_unpinned_dirty\<lparr>pages := [\<lparr>data = [1], page_id = 0, pin_count = 0, is_dirty = True\<rparr>]\<rparr>)
     [OpFetchPage 0, OpUnpinPage 0 False, OpNewPage, OpUnpinPage 1 False]"
  by (simp add: one_unpinned_dirty_def bpm_defs replacer_defs
      INVALID_PAGE_ID_def DiskManager_new_def zero_page_not_one)

lemma BufferPoolManager_new_two:
  "BufferPoolManager_new 2 d kk =
     \<lparr>pool_size = 2, pages = [Page_new, Page_new], replacer = LRUKReplacer_new 2 kk,
      page_table = Map.empty, free_list = [0, 1], next_page_id = 0, disk_manager = d\<rparr>"
  by (simp add: BufferPoolManager_new_def numeral_2_eq_2)

text \<open>
  Why the amended statement asks that no frame holds the id \<open>p\<close> when \<^verbatim>\<open>NewPage\<close> allocates it.
  \<^verbatim>\<open>FetchPage\<close> accepts an id that was never allocated. In a pool of two frames, page 0 is
  fetched twice into frame 0 (the hit marks it dirty) and unpinned; \<^verbatim>\<open>NewPage\<close> then allocates
  the id 0 again, in frame 1. The client writes the byte 1 and unpins with \<open>true\<close>. Two more
  \<^verbatim>\<open>NewPage\<close> calls evict frame 1, which writes the byte to disk, and then frame 0, which
  overwrites page 0 on disk with its zero bytes. The final \<^verbatim>\<open>FetchPage(0)\<close> returns zero bytes,
  and no \<^verbatim>\<open>UnpinPage(0, false)\<close> was involved.
\<close>

lemma round_trip_stale_copy:
  "\<exists>s. bpm_trace (BufferPoolManager_new 2 DiskManager_new 2)
     [OpFetchPage 0, OpFetchPage 0, OpUnpinPage 0 True, OpUnpinPage 0 True,
      OpNewPage, OpWriteData 1 [1], OpUnpinPage 0 True,
      OpNewPage, OpNewPage, OpUnpinPage 1 False,
      OpFetchPage 0]
     = Inr ([RFetchPage (Some 0), RFetchPage (Some 0), RBool True, RBool True,
             RNewPage (Some (0, 1)), RUnit, RBool True,
             RNewPage (Some (1, 1)), RNewPage (Some (2, 0)), RBool True,
             RFetchPage (Some 1)], s) \<and>
        data (frame_at s 1) = zero_page"
  by (simp add: BufferPoolManager_new_two Page_new_def bpm_defs replacer_defs
      INVALID_PAGE_ID_def DiskManager_new_def Let_def)

text \<open>
  Why the amended statement bounds the number of \<^verbatim>\<open>NewPage\<close> calls. The counter of page ids
  wraps around, so the \<open>2 ^ 32\<close>-th allocation after page 0 returns the id 0 again. Take the
  pool of one frame after \<^verbatim>\<open>NewPage\<close> (page 0), the write of the byte 1, \<^verbatim>\<open>UnpinPage(0, true)\<close>,
  \<^verbatim>\<open>NewPage\<close> (page 1, which evicts page 0 and writes the byte to disk) and
  \<^verbatim>\<open>UnpinPage(1, false)\<close>, and let the counter have come back to 0. \<^verbatim>\<open>NewPage\<close> hands out
  page 0 anew, with zero bytes in its frame; after \<^verbatim>\<open>UnpinPage(0, true)\<close> the next \<^verbatim>\<open>NewPage\<close>
  writes the zero bytes over the byte on disk, and \<^verbatim>\<open>FetchPage(0)\<close> returns zero bytes.
\<close>

lemma round_trip_counter_returns:
  "\<exists>s s'. bpm_run (BufferPoolManager_new 1 DiskManager_new 2)
       [OpNewPage, OpWriteData 0 [1], OpUnpinPage 0 True, OpNewPage, OpUnpinPage 1 False] = Inr s \<and>
     disk_pages (disk_manager s) 0 = [1] \<and>
     bpm_trace (s\<lparr>next_page_id := 0\<rparr>)
       [OpNewPage, OpUnpinPage 0 True, OpNewPage, OpUnpinPage 1 False, OpFetchPage 0]
     = Inr ([RNewPage (Some (0, 0)), RBool True, RNewPage (Some (1, 0)), RBool True,
             RFetchPage (Some 0)], s') \<and>
     data (frame_at s' 0) = zero_page"
  by (simp add: BufferPoolManager_new_def Page_new_def bpm_defs replacer_defs
      INVALID_PAGE_ID_def DiskManager_new_def Let_def)

end
